theory Spec2Isabelle
  imports Complex_Main
begin

section \<open>The small-prime table of \<open>primality.py\<close>\<close>

text \<open>
  Python exceptions are values. A call either returns or raises; the class attributes of
  \<open>Primes\<close> survive a raise, so every stateful operation gives back the state it left
  behind next to its outcome.
\<close>

datatype error = TypeError | ValueError | ZeroDivisionError | OverflowError

datatype 'a result = Ok 'a | Raise error

text \<open>
  The three class variables of \<open>Primes\<close>. Python integers are unbounded, hence \<open>int\<close>.
\<close>

record sieve_state =
  odd_primes_list :: "int list"
  small_primes_set :: "int set"
  last_tested :: int

definition initial_state :: sieve_state where
  "initial_state =
     \<lparr>odd_primes_list = [3, 5, 7], small_primes_set = {2, 3, 5, 7}, last_tested = 9\<rparr>"

text \<open>
  The table once the module is loaded: \<open>primes = Primes(20)\<close> has sieved up to 20, which
  the assertions of the module's self-test spell out.
\<close>

definition loaded_state :: sieve_state where
  "loaded_state =
     \<lparr>odd_primes_list = [3, 5, 7, 11, 13, 17, 19],
        small_primes_set = {2, 3, 5, 7, 11, 13, 17, 19}, last_tested = 21\<rparr>"

text \<open>
  The loop \<open>for p in odd_primes_list: if c % p == 0: ... break\<close>, which both \<open>sieve\<close> and
  \<open>is_irreducible\<close> run: \<open>Ok True\<close> when no entry divides \<open>c\<close>, \<open>Ok False\<close> at the first
  entry that does. Python's \<open>%\<close> raises on a zero divisor, where HOL's \<open>mod\<close> returns
  its left argument.
\<close>

fun no_divisor :: "int \<Rightarrow> int list \<Rightarrow> bool result" where
  "no_divisor c [] = Ok True"
| "no_divisor c (p # ps) =
     (if p = 0 then Raise ZeroDivisionError
      else if c mod p = 0 then Ok False
      else no_divisor c ps)"

text \<open>
  The \<open>while stop > last_tested\<close> loop of \<open>sieve\<close>. The candidate is stored in
  \<open>last_tested\<close> before it is tested, so a raise leaves it incremented.
\<close>

function sieve_loop :: "sieve_state \<Rightarrow> int \<Rightarrow> unit result \<times> sieve_state" where
  "sieve_loop st stop =
     (if stop > last_tested st then
        (let st1 = st\<lparr>last_tested := last_tested st + 2\<rparr> in
         case no_divisor (last_tested st1) (odd_primes_list st1) of
           Raise e \<Rightarrow> (Raise e, st1)
         | Ok is_prime \<Rightarrow>
             sieve_loop
               (if is_prime
                then st1\<lparr>odd_primes_list := odd_primes_list st1 @ [last_tested st1],
                         small_primes_set := insert (last_tested st1) (small_primes_set st1)\<rparr>
                else st1)
               stop)
      else (Ok (), st))"
  by pat_completeness auto
termination
  by (relation "measure (\<lambda>(st, stop). nat (stop - last_tested st))") auto

text \<open>
  \<open>sieve(stop)\<close> for an integer \<open>stop\<close>: \<open>not stop\<close> holds exactly for 0, an integer is a
  \<open>Real\<close>, and the loop runs on \<open>abs(stop)\<close>.
\<close>

definition sieve :: "sieve_state \<Rightarrow> int \<Rightarrow> unit result \<times> sieve_state" where
  "sieve st stop = (if stop = 0 then (Ok (), st) else sieve_loop st \<bar>stop\<bar>)"

section \<open>The primality oracle\<close>

text \<open>
  The source answers with \<open>True\<close>, \<open>False\<close> or \<open>Maybe\<close> (the float infinity).
\<close>

datatype truth = Bool bool | Maybe

definition is_irreducible :: "sieve_state \<Rightarrow> int \<Rightarrow> bool \<Rightarrow> truth result \<times> sieve_state" where
  "is_irreducible st n0 allow_sieve =
     (let n = \<bar>n0\<bar> in
      if allow_sieve then
        (case sieve st n of
           (Raise e, st') \<Rightarrow> (Raise e, st')
         | (Ok u, st') \<Rightarrow> (Ok (Bool (n \<in> small_primes_set st')), st'))
      else if n \<in> small_primes_set st then (Ok (Bool True), st)
      else if n \<le> last_tested st then (Ok (Bool False), st)
      else if n mod 2 = 0 then (Ok (Bool False), st)
      else
        (case no_divisor n (odd_primes_list st) of
           Raise e \<Rightarrow> (Raise e, st)
         | Ok False \<Rightarrow> (Ok (Bool False), st)
         | Ok True \<Rightarrow>
             if n < last_tested st * last_tested st then (Ok (Bool True), st)
             else (Ok Maybe, st)))"

definition is_prime :: "sieve_state \<Rightarrow> int \<Rightarrow> bool \<Rightarrow> truth result \<times> sieve_state" where
  "is_prime st n allow_sieve =
     (if n = 0 then (Ok (Bool True), st) else is_irreducible st n allow_sieve)"

definition is_unit :: "int \<Rightarrow> bool" where
  "is_unit n = (n \<in> {-1, 1})"

text \<open>The dictionary \<open>{True: False, False: True, Maybe: Maybe}\<close> of \<open>is_composite\<close>.\<close>

fun negate :: "truth \<Rightarrow> truth" where
  "negate (Bool b) = Bool (\<not> b)"
| "negate Maybe = Maybe"

definition is_composite :: "sieve_state \<Rightarrow> int \<Rightarrow> bool \<Rightarrow> truth result \<times> sieve_state" where
  "is_composite st n allow_sieve =
     (if is_unit n then (Ok (Bool False), st)
      else
        (case is_prime st n allow_sieve of
           (Raise e, st') \<Rightarrow> (Raise e, st')
         | (Ok t, st') \<Rightarrow> (Ok (negate t), st')))"

section \<open>Factorisation\<close>

text \<open>
  \<open>extract_power\<close> divides while the remainder is zero. On \<open>n = 0\<close> or \<open>p = \<plusminus>1\<close> the
  source never leaves the loop: the model's value is then \<open>None\<close>.
\<close>

partial_function (option) extract_power_loop :: "int \<Rightarrow> int \<Rightarrow> int \<Rightarrow> (int \<times> int) result option" where
  "extract_power_loop e n p =
     (if p = 0 then Some (Raise ZeroDivisionError)
      else if n mod p = 0 then extract_power_loop (e + 1) (n div p) p
      else Some (Ok (e, n)))"

declare extract_power_loop.simps [code]

definition extract_power :: "int \<Rightarrow> int \<Rightarrow> (int \<times> int) result option" where
  "extract_power n p = extract_power_loop 0 n p"

text \<open>
  An entry of a factor list is the leading unit (a bare integer) or a pair \<open>[p, e]\<close>.
  \<open>factor_slow\<close> returns the integer 0 or such a list.
\<close>

datatype factor = Scalar int | Power int int

datatype factorization = IntR int | ListR "factor list"

text \<open>
  The \<open>for p in self.odd_primes_list\<close> loop of \<open>factor_slow\<close>. The flag of the result says
  whether the loop left through \<open>return factors\<close> (the cofactor reached 1).
\<close>

fun scan_known :: "int list \<Rightarrow> int \<Rightarrow> factor list \<Rightarrow> (bool \<times> int \<times> factor list) result option" where
  "scan_known [] n factors = Some (Ok (False, n, factors))"
| "scan_known (p # ps) n factors =
     (case extract_power n p of
        None \<Rightarrow> None
      | Some (Raise e) \<Rightarrow> Some (Raise e)
      | Some (Ok (e, n')) \<Rightarrow>
          (let factors' = (if e > 0 then factors @ [Power p e] else factors) in
           if n' = 1 then Some (Ok (True, n', factors'))
           else scan_known ps n' factors'))"

text \<open>
  The inner \<open>while m < len(self.odd_primes_list)\<close> loop, over the primes appended by the
  last extension; it leaves by \<open>break\<close> when the cofactor is 1.
\<close>

function scan_new :: "int list \<Rightarrow> nat \<Rightarrow> int \<Rightarrow> factor list \<Rightarrow> (nat \<times> int \<times> factor list) result option" where
  "scan_new ps m n factors =
     (if m < length ps then
        (case extract_power n (ps ! m) of
           None \<Rightarrow> None
         | Some (Raise e) \<Rightarrow> Some (Raise e)
         | Some (Ok (e, n')) \<Rightarrow>
             (let factors' = (if e > 0 then factors @ [Power (ps ! m) e] else factors) in
              if n' = 1 then Some (Ok (Suc m, n', factors'))
              else scan_new ps (Suc m) n' factors'))
      else Some (Ok (m, n, factors)))"
  by pat_completeness auto
termination
  by (relation "measure (\<lambda>(ps, m, n, factors). length ps - m)") auto

text \<open>
  The outer \<open>while n > 1\<close> loop. The stop value \<open>int(self.last_tested * phi)\<close> is a
  floating-point product; the model takes it as the function \<open>phi_stop\<close> of
  \<open>last_tested\<close>. When an extension adds nothing that brings the cofactor down the loop
  goes round again, and it may do so for ever: \<open>None\<close>.
\<close>

partial_function (option) grow_loop ::
  "(int \<Rightarrow> int) \<Rightarrow> sieve_state \<Rightarrow> nat \<Rightarrow> int \<Rightarrow> factor list \<Rightarrow> (factor list result \<times> sieve_state) option" where
  "grow_loop phi_stop st m n factors =
     (if n > 1 then
        (case sieve st (phi_stop (last_tested st)) of
           (Raise e, st') \<Rightarrow> Some (Raise e, st')
         | (Ok u, st') \<Rightarrow>
             (case scan_new (odd_primes_list st') m n factors of
                None \<Rightarrow> None
              | Some (Raise e) \<Rightarrow> Some (Raise e, st')
              | Some (Ok (m', n', factors')) \<Rightarrow> grow_loop phi_stop st' m' n' factors'))
      else Some (Ok factors, st))"

declare grow_loop.simps [code]

definition factor_slow ::
  "(int \<Rightarrow> int) \<Rightarrow> sieve_state \<Rightarrow> int \<Rightarrow> (factorization result \<times> sieve_state) option" where
  "factor_slow phi_stop st n0 =
     (if n0 = 0 then Some (Ok (IntR 0), st)
      else
        (let unit = (if n0 > 0 then 1 else - 1);
             factors = [Scalar unit];
             n = \<bar>n0\<bar>
         in
         if n = 1 then Some (Ok (ListR factors), st)
         else
           (case extract_power n 2 of
              None \<Rightarrow> None
            | Some (Raise e) \<Rightarrow> Some (Raise e, st)
            | Some (Ok (e, n2)) \<Rightarrow>
                (let factors2 = (if e > 0 then factors @ [Power 2 e] else factors) in
                 if n2 = 1 then Some (Ok (ListR factors2), st)
                 else
                   (case scan_known (odd_primes_list st) n2 factors2 of
                      None \<Rightarrow> None
                    | Some (Raise e) \<Rightarrow> Some (Raise e, st)
                    | Some (Ok (True, n3, factors3)) \<Rightarrow> Some (Ok (ListR factors3), st)
                    | Some (Ok (False, n3, factors3)) \<Rightarrow>
                        (case grow_loop phi_stop st (length (odd_primes_list st)) n3 factors3 of
                           None \<Rightarrow> None
                         | Some (Raise e, st') \<Rightarrow> Some (Raise e, st')
                         | Some (Ok fs, st') \<Rightarrow> Some (Ok (ListR fs), st')))))))"

text \<open>The loop \<open>for _ in range(e): n *= p\<close>.\<close>

fun times_repeat :: "nat \<Rightarrow> int \<Rightarrow> int \<Rightarrow> int" where
  "times_repeat 0 p n = n"
| "times_repeat (Suc k) p n = times_repeat k p (n * p)"

fun multiply_loop :: "factor list \<Rightarrow> int \<Rightarrow> int result" where
  "multiply_loop [] n = Ok n"
| "multiply_loop (Power p e # fs) n =
     (if e < 0 then Raise ValueError else multiply_loop fs (times_repeat (nat e) p n))"
| "multiply_loop (Scalar u # fs) n = multiply_loop fs (n * u)"

text \<open>
  \<open>multiply\<close>: the integer 0 goes to 0, any other non-list raises \<open>TypeError\<close>.
\<close>

fun multiply :: "factorization \<Rightarrow> int result" where
  "multiply (IntR k) = (if k = 0 then Ok 0 else Raise TypeError)"
| "multiply (ListR fs) = multiply_loop fs 1"

section \<open>Divisor functions\<close>

text \<open>
  The numbers the divisor functions and the decorator handle: an integer, a float, a
  complex number. A finite float is given by the rational it stands for (Python compares
  numbers of different types by value); the other floats are the two infinities and the
  not-a-number. A complex number has two float parts.
\<close>

datatype part = FinP rat | PosInfP | NegInfP | NaNP

datatype pynum = IntV int | FloatV rat | ComplexV part part | PosInf | NegInf | NaN

text \<open>
  Python's \<open>==\<close> on numbers: by value, a real number being a complex one with imaginary
  part 0, and the not-a-number equals nothing, itself included.
\<close>

fun part_eq :: "part \<Rightarrow> part \<Rightarrow> bool" where
  "part_eq (FinP a) (FinP b) = (a = b)"
| "part_eq PosInfP PosInfP = True"
| "part_eq NegInfP NegInfP = True"
| "part_eq x y = False"

fun real_part :: "pynum \<Rightarrow> part" where
  "real_part (IntV a) = FinP (of_int a)"
| "real_part (FloatV a) = FinP a"
| "real_part (ComplexV re im) = re"
| "real_part PosInf = PosInfP"
| "real_part NegInf = NegInfP"
| "real_part NaN = NaNP"

fun imag_part :: "pynum \<Rightarrow> part" where
  "imag_part (ComplexV re im) = im"
| "imag_part x = FinP 0"

fun py_eq :: "pynum \<Rightarrow> pynum \<Rightarrow> bool" where
  "py_eq (IntV a) (IntV b) = (a = b)"
| "py_eq (IntV a) (FloatV b) = (of_int a = b)"
| "py_eq (FloatV a) (IntV b) = (a = of_int b)"
| "py_eq (FloatV a) (FloatV b) = (a = b)"
| "py_eq PosInf PosInf = True"
| "py_eq NegInf NegInf = True"
| "py_eq (ComplexV re im) y = (part_eq re (real_part y) \<and> part_eq im (imag_part y))"
| "py_eq x (ComplexV re im) = (part_eq (real_part x) re \<and> part_eq (imag_part x) im)"
| "py_eq x y = False"

text \<open>The loop \<open>for factor in factors: if isinstance(factor, list): divisors *= e+1\<close>.\<close>

fun d_loop :: "factor list \<Rightarrow> int \<Rightarrow> int" where
  "d_loop [] divisors = divisors"
| "d_loop (Power p e # fs) divisors = d_loop fs (divisors * (e + 1))"
| "d_loop (Scalar u # fs) divisors = d_loop fs divisors"

text \<open>
  \<open>d(n)\<close>. Iterating over the integer 0 would raise \<open>TypeError\<close>; \<open>factor_slow\<close> returns
  it for the argument 0 only.
\<close>

definition d :: "(int \<Rightarrow> int) \<Rightarrow> sieve_state \<Rightarrow> int \<Rightarrow> (pynum result \<times> sieve_state) option" where
  "d phi_stop st n0 =
     (if n0 = 0 then Some (Ok PosInf, st)
      else
        (let n = \<bar>n0\<bar> in
         if n = 1 then Some (Ok (IntV 1), st)
         else
           (case factor_slow phi_stop st n of
              None \<Rightarrow> None
            | Some (Raise e, st') \<Rightarrow> Some (Raise e, st')
            | Some (Ok (IntR z), st') \<Rightarrow> Some (Raise TypeError, st')
            | Some (Ok (ListR fs), st') \<Rightarrow> Some (Ok (IntV (d_loop fs 1)), st'))))"

text \<open>
  Integer arithmetic is exact. Everything else \<open>sigma\<close> computes is floating-point or
  complex arithmetic, whose roundings and principal values the model does not compute:
  it takes the three operations as its parameter. \<open>float_pow\<close> is \<open>p ** k\<close> for an
  integer \<open>p\<close> where the result is not an integer (it can raise, \<open>OverflowError\<close> for
  one), \<open>float_add\<close> and \<open>float_mul\<close> are \<open>+\<close> and \<open>*\<close> where an operand is not an
  integer.
\<close>

record float_arith =
  float_pow :: "int \<Rightarrow> pynum \<Rightarrow> pynum result"
  float_add :: "pynum \<Rightarrow> pynum \<Rightarrow> pynum"
  float_mul :: "pynum \<Rightarrow> pynum \<Rightarrow> pynum"

fun py_add :: "float_arith \<Rightarrow> pynum \<Rightarrow> pynum \<Rightarrow> pynum" where
  "py_add ops (IntV a) (IntV b) = IntV (a + b)"
| "py_add ops x y = float_add ops x y"

fun py_mul :: "float_arith \<Rightarrow> pynum \<Rightarrow> pynum \<Rightarrow> pynum" where
  "py_mul ops (IntV a) (IntV b) = IntV (a * b)"
| "py_mul ops x y = float_mul ops x y"

text \<open>
  \<open>p ** k\<close> for an integer \<open>p\<close>: an integer when \<open>k\<close> is an integer and \<open>k \<ge> 0\<close>;
  \<open>ZeroDivisionError\<close> for 0 to a negative integer power; a float or a complex number
  otherwise.
\<close>

fun py_pow :: "float_arith \<Rightarrow> int \<Rightarrow> pynum \<Rightarrow> pynum result" where
  "py_pow ops p (IntV k) =
     (if 0 \<le> k then Ok (IntV (p ^ nat k))
      else if p = 0 then Raise ZeroDivisionError
      else float_pow ops p (IntV k))"
| "py_pow ops p k = float_pow ops p k"

text \<open>The loop \<open>for f in range(e+1): t += a; a *= m\<close>, returning \<open>t\<close>.\<close>

fun geometric :: "float_arith \<Rightarrow> nat \<Rightarrow> pynum \<Rightarrow> pynum \<Rightarrow> pynum \<Rightarrow> pynum" where
  "geometric ops 0 m t a = t"
| "geometric ops (Suc j) m t a = geometric ops j m (py_add ops t a) (py_mul ops a m)"

fun sigma_loop :: "float_arith \<Rightarrow> pynum \<Rightarrow> factor list \<Rightarrow> pynum \<Rightarrow> pynum result" where
  "sigma_loop ops k [] s = Ok s"
| "sigma_loop ops k (Power p e # fs) s =
     (case py_pow ops p k of
        Raise err \<Rightarrow> Raise err
      | Ok m \<Rightarrow>
          sigma_loop ops k fs (py_mul ops s (geometric ops (nat (e + 1)) m (IntV 0) (IntV 1))))"
| "sigma_loop ops k (Scalar u # fs) s = sigma_loop ops k fs s"

text \<open>
  \<open>sigma(n, k)\<close>. The exponent \<open>k\<close> is any number: an integer, a float or a complex
  number. The test \<open>k == 0\<close> comes first, and the integer 0, the float 0.0 and the
  complex 0j all pass it.
\<close>

definition sigma ::
  "float_arith \<Rightarrow> (int \<Rightarrow> int) \<Rightarrow> sieve_state \<Rightarrow> int \<Rightarrow> pynum \<Rightarrow>
     (pynum result \<times> sieve_state) option" where
  "sigma ops phi_stop st n0 k =
     (if py_eq k (IntV 0) then d phi_stop st n0
      else if n0 = 0 then Some (Ok NaN, st)
      else
        (case (if n0 > 0 then Ok (IntV 1) else py_pow ops (- 1) k) of
           Raise err \<Rightarrow> Some (Raise err, st)
         | Ok s \<Rightarrow>
             (let n = \<bar>n0\<bar> in
              if n = 1 then Some (Ok s, st)
              else
                (case factor_slow phi_stop st n of
                   None \<Rightarrow> None
                 | Some (Raise e, st') \<Rightarrow> Some (Raise e, st')
                 | Some (Ok (IntR z), st') \<Rightarrow> Some (Raise TypeError, st')
                 | Some (Ok (ListR fs), st') \<Rightarrow> Some (sigma_loop ops k fs s, st')))))"

section \<open>The decorator \<open>multiplicative\<close>\<close>

text \<open>
  \<open>x in {...}\<close> on a set display: an element matches when it is the same object or
  compares equal. The display is evaluated inside the call, so the floats in it are
  fresh objects and none is identical to an argument; integers that are identical are
  equal as well. What is left is equality with some element.
\<close>

definition py_in :: "pynum \<Rightarrow> pynum list \<Rightarrow> bool" where
  "py_in x elems = list_ex (py_eq x) elems"

text \<open>
  The validation that \<open>multiplicative(minus1, zero)\<close> runs before it builds the wrapper.
  On success the closure keeps the two conventions.
\<close>

record conventions =
  minus1 :: pynum
  zero :: pynum

definition multiplicative :: "pynum \<Rightarrow> pynum \<Rightarrow> conventions result" where
  "multiplicative m1 z =
     (if \<not> py_in m1 [IntV (- 1), IntV 0, IntV 1] then Raise ValueError
      else if \<not> py_in z [IntV 0, PosInf, NaN] then Raise ValueError
      else Ok \<lparr>minus1 = m1, zero = z\<rparr>)"

section \<open>The golden-ratio stop value\<close>

text \<open>
  \<open>phi\<close> is the double \<open>0x1.9e3779b97f4a8p+0\<close>, that is 910872158600853 / 2^49.
  \<open>golden_stop\<close> is \<open>int(last_tested * phi)\<close> with the product taken exactly
  (\<open>int\<close> truncates towards zero). The float product of the source is this value up to
  the rounding of the product; the theorems below hold for every stop function that
  lies above its argument, and use \<open>golden_stop\<close> where a concrete one is needed.
\<close>

definition golden_stop :: "int \<Rightarrow> int" where
  "golden_stop t =
     (if 0 \<le> t then (t * 910872158600853) div 562949953421312
      else - ((- t * 910872158600853) div 562949953421312))"

section \<open>Specification predicates\<close>

text \<open>
  The positive primes: an integer above 1 with no divisor strictly between 1 and itself.
\<close>

definition positive_prime :: "int \<Rightarrow> bool" where
  "positive_prime p = (1 < p \<and> (\<forall>d \<in> {2..<p}. \<not> d dvd p))"

text \<open>
  The state of the table that the sieve maintains: \<open>last_tested\<close> is odd and at least 9,
  the list holds the primes from 3 to \<open>last_tested\<close> in ascending order, and the set
  holds the list's entries and 2.
\<close>

definition sieve_inv :: "sieve_state \<Rightarrow> bool" where
  "sieve_inv st =
     (9 \<le> last_tested st \<and> odd (last_tested st) \<and>
      odd_primes_list st = filter positive_prime [3..last_tested st] \<and>
      small_primes_set st = insert 2 (set (odd_primes_list st)))"

text \<open>
  A sequence of \<open>sieve\<close> calls, one after the other on the shared table; a raise ends it.
\<close>

fun sieve_calls :: "sieve_state \<Rightarrow> int list \<Rightarrow> unit result \<times> sieve_state" where
  "sieve_calls st [] = (Ok (), st)"
| "sieve_calls st (stop # stops) =
     (case sieve st stop of
        (Raise e, st') \<Rightarrow> (Raise e, st')
      | (Ok u, st') \<Rightarrow> sieve_calls st' stops)"

text \<open>
  The product that a list of pairs \<open>[p, e]\<close> stands for.
\<close>

definition pairs_value :: "(int \<times> int) list \<Rightarrow> int" where
  "pairs_value pes = prod_list (map (\<lambda>(p, e). p ^ nat e) pes)"

text \<open>
  What the proofs need of the stop value \<open>int(last_tested * phi)\<close>: it lies above
  \<open>last_tested\<close>, which is never below 9. The float product is about 1.618 times
  \<open>last_tested\<close> with a relative rounding error far below 0.6, so it does, as long as
  \<open>last_tested\<close> is in the range of a double.
\<close>

definition stop_grows :: "(int \<Rightarrow> int) \<Rightarrow> bool" where
  "stop_grows phi_stop = (\<forall>t. 9 \<le> t \<longrightarrow> t < phi_stop t)"

text \<open>
  The count of the divisors of \<open>n\<close> among 1, ..., \<open>n\<close>, by trying each.
\<close>

definition divisor_count :: "int \<Rightarrow> nat" where
  "divisor_count n = card {k \<in> {1..n}. k dvd n}"

text \<open>
  The exponent of \<open>p\<close> in \<open>n\<close>, as the number of powers of \<open>p\<close> from the first on that
  divide \<open>n\<close>, and the primes that divide \<open>n\<close>.
\<close>

definition multiplicity :: "int \<Rightarrow> int \<Rightarrow> nat" where
  "multiplicity p n = card {e \<in> {1..nat \<bar>n\<bar>}. p ^ e dvd n}"

definition prime_divisors :: "int \<Rightarrow> int set" where
  "prime_divisors n = {p \<in> {2..\<bar>n\<bar>}. positive_prime p \<and> p dvd n}"

section \<open>Frame properties\<close>

text \<open>
  C8, as stated: \<open>sieve(stop)\<close> changes nothing when \<open>stop\<close> is zero or negative. It
  fails: the source sieves up to \<open>abs(stop)\<close>, so \<open>sieve(-30)\<close> on the table of the
  loaded module goes on to 31 and appends 23, 29 and 31.
\<close>

theorem sieve_negative_stop_extends:
  "(- 30 :: int) \<le> 0 \<and>
   sieve loaded_state (- 30) =
     (Ok (), \<lparr>odd_primes_list = [3, 5, 7, 11, 13, 17, 19, 23, 29, 31],
               small_primes_set = {2, 3, 5, 7, 11, 13, 17, 19, 23, 29, 31},
               last_tested = 31\<rparr>) \<and>
   snd (sieve loaded_state (- 30)) \<noteq> loaded_state"
  by code_simp

text \<open>
  C8, amended: \<open>sieve(stop)\<close> returns with the three class variables unchanged when
  \<open>stop\<close> is 0 or \<open>abs(stop) \<le> last_tested\<close>.
\<close>

theorem sieve_covered_noop:
  "stop = 0 \<or> \<bar>stop\<bar> \<le> last_tested st \<Longrightarrow> sieve st stop = (Ok (), st)"
  by (auto simp: sieve_def)

theorem sieve_covered_noop_witness:
  "((- 19 :: int) = 0 \<or> \<bar>- 19\<bar> \<le> last_tested loaded_state) \<and>
   sieve loaded_state (- 19) = (Ok (), loaded_state)"
  using sieve_covered_noop [of "- 19" loaded_state] by (simp add: loaded_state_def)

text \<open>
  C10: with sieving disabled, \<open>is_irreducible\<close>, \<open>is_prime\<close> and \<open>is_composite\<close> leave
  \<open>odd_primes_list\<close>, \<open>small_primes_set\<close> and \<open>last_tested\<close> as they were, for every
  integer and every table, whether they return or raise.
\<close>

theorem query_without_sieve_keeps_state:
  "snd (is_irreducible st n False) = st \<and>
   snd (is_prime st n False) = st \<and>
   snd (is_composite st n False) = st"
  by (auto simp: is_irreducible_def is_prime_def is_composite_def Let_def
      split: result.splits bool.splits prod.splits)

section \<open>Sentinels and conventions\<close>

text \<open>
  C6: \<open>sigma(0, k)\<close> is the not-a-number, whatever the exponent \<open>k\<close>; so says the claim,
  and so says the docstring of \<open>sigma\<close>. The source does not do it at \<open>k = 0\<close>: the test
  \<open>k == 0\<close> comes before the test \<open>n == 0\<close> and hands over to \<open>d\<close>, so that for the
  integer 0, the float 0.0 and the complex 0j the value is the infinity, on every table.
\<close>

theorem sigma_zero_exponent_zero_infinite:
  "sigma ops phi_stop st 0 (IntV 0) = Some (Ok PosInf, st) \<and>
   sigma ops phi_stop st 0 (FloatV 0) = Some (Ok PosInf, st) \<and>
   sigma ops phi_stop st 0 (ComplexV (FinP 0) (FinP 0)) = Some (Ok PosInf, st) \<and>
   PosInf \<noteq> NaN"
  by (simp add: sigma_def d_def)

text \<open>
  Every other exponent, integer, float or complex, gives the not-a-number at 0, which is
  neither the integer 0 nor the infinity; the table is left alone.
\<close>

lemma sigma_zero_undefined:
  "\<not> py_eq k (IntV 0) \<Longrightarrow>
   sigma ops phi_stop st 0 k = Some (Ok NaN, st) \<and> NaN \<noteq> IntV 0 \<and> NaN \<noteq> PosInf"
  by (simp add: sigma_def)

lemma sigma_zero_undefined_examples:
  "sigma ops phi_stop st 0 (IntV 1) = Some (Ok NaN, st)"
  "sigma ops phi_stop st 0 (IntV (- 2)) = Some (Ok NaN, st)"
  "sigma ops phi_stop st 0 (FloatV (1 / 2)) = Some (Ok NaN, st)"
  "sigma ops phi_stop st 0 (ComplexV (FinP 0) (FinP 1)) = Some (Ok NaN, st)"
  "sigma ops phi_stop st 0 PosInf = Some (Ok NaN, st)"
  "sigma ops phi_stop st 0 NaN = Some (Ok NaN, st)"
  by (simp_all add: sigma_def)

text \<open>
  C7: the documented convention \<open>zero = float('nan')\<close> is refused. The membership test
  compares the argument with a fresh not-a-number, and these are never equal.
\<close>

theorem multiplicative_rejects_nan:
  "multiplicative (IntV (- 1)) NaN = Raise ValueError"
  by (simp add: multiplicative_def py_in_def)

text \<open>
  No number equals the not-a-number, so the third element of the set display admits
  nothing. What the validation does accept: a value at -1 equal to -1, 0 or 1, with a
  value at 0 equal to 0 or to the positive infinity.
\<close>

lemma part_eq_nan: "part_eq x NaNP = False"
  by (cases x) simp_all

lemma py_eq_nan: "py_eq x NaN = False"
  by (cases x) (simp_all add: part_eq_nan)

lemma multiplicative_accepts:
  "multiplicative m1 z = Ok \<lparr>minus1 = m1, zero = z\<rparr> \<longleftrightarrow>
     (py_eq m1 (IntV (- 1)) \<or> py_eq m1 (IntV 0) \<or> py_eq m1 (IntV 1)) \<and>
     (py_eq z (IntV 0) \<or> py_eq z PosInf)"
  by (auto simp: multiplicative_def py_in_def py_eq_nan)

section \<open>Primes\<close>

lemma positive_prime_iff:
  "positive_prime p \<longleftrightarrow> 1 < p \<and> (\<forall>d. 0 < d \<and> d dvd p \<longrightarrow> d = 1 \<or> d = p)"
proof
  assume pp: "positive_prime p"
  then have p1: "1 < p" and nd: "\<And>d. 2 \<le> d \<Longrightarrow> d < p \<Longrightarrow> \<not> d dvd p"
    by (auto simp: positive_prime_def)
  have "d = 1 \<or> d = p" if "0 < d" "d dvd p" for d
  proof -
    have "d \<le> p" using that p1 by (simp add: zdvd_imp_le)
    with nd [of d] that show ?thesis by force
  qed
  with p1 show "1 < p \<and> (\<forall>d. 0 < d \<and> d dvd p \<longrightarrow> d = 1 \<or> d = p)" by blast
next
  assume "1 < p \<and> (\<forall>d. 0 < d \<and> d dvd p \<longrightarrow> d = 1 \<or> d = p)"
  then show "positive_prime p" by (force simp: positive_prime_def)
qed

lemma prime_divisor_exists: "1 < n \<Longrightarrow> \<exists>p. positive_prime p \<and> p dvd n"
proof (induction "nat n" arbitrary: n rule: less_induct)
  case less
  show ?case
  proof (cases "positive_prime n")
    case True
    then show ?thesis by auto
  next
    case False
    with less.prems obtain d where d: "2 \<le> d" "d < n" "d dvd n"
      by (auto simp: positive_prime_def)
    then have "nat d < nat n" by simp
    from less.hyps [OF this] d obtain p where "positive_prime p" "p dvd d" by fastforce
    with d show ?thesis by (meson dvd_trans)
  qed
qed

lemma positive_prime_gt1: "positive_prime p \<Longrightarrow> 1 < p"
  by (simp add: positive_prime_def)

lemma small_prime_divisor:
  assumes "1 < n" "\<not> positive_prime n"
  shows "\<exists>p. positive_prime p \<and> p dvd n \<and> p * p \<le> n"
proof -
  from assms obtain d where d: "2 \<le> d" "d < n" "d dvd n"
    by (auto simp: positive_prime_def)
  then obtain k where k: "n = d * k" by (auto simp: dvd_def)
  have kpos: "0 < k" using k d assms(1) by (simp add: zero_less_mult_iff)
  have k2: "2 \<le> k"
  proof (rule ccontr)
    assume "\<not> 2 \<le> k"
    with kpos have "k = 1" by simp
    with k d show False by simp
  qed
  define m where "m = min d k"
  have m: "2 \<le> m" "m dvd n" "m * m \<le> n"
  proof -
    show "2 \<le> m" using d k2 by (simp add: m_def)
    show "m dvd n" using k by (auto simp: m_def min_def)
    have "m * m \<le> d * k" by (rule mult_mono) (use d k2 in \<open>auto simp: m_def\<close>)
    then show "m * m \<le> n" using k by simp
  qed
  from prime_divisor_exists [of m] m obtain p where p: "positive_prime p" "p dvd m" by auto
  have "p \<le> m" using p m by (simp add: zdvd_imp_le)
  moreover have "0 < p" using positive_prime_gt1 [OF p(1)] by simp
  ultimately have "p * p \<le> m * m" by (simp add: mult_mono)
  with p m show ?thesis by (meson dvd_trans order_trans)
qed

lemma prime_coprime: 
  assumes "positive_prime p" "\<not> p dvd a" shows "coprime p a"
proof -
  have g: "gcd p a dvd p" "gcd p a dvd a" by simp_all
  have "0 < gcd p a" using positive_prime_gt1 [OF assms(1)] by (simp add: gcd_pos_int)
  with assms(1) g(1) have "gcd p a = 1 \<or> gcd p a = p" by (simp add: positive_prime_iff)
  with g(2) assms(2) have "gcd p a = 1" by metis
  then show ?thesis by (simp add: coprime_iff_gcd_eq_1)
qed

lemma prime_dvd_mult:
  "positive_prime p \<Longrightarrow> p dvd a * b \<Longrightarrow> p dvd a \<or> p dvd b"
  using prime_coprime [of p b] coprime_dvd_mult_left_iff [of p b a] by blast

lemma prime_dvd_power: "positive_prime p \<Longrightarrow> p dvd a ^ k \<Longrightarrow> p dvd a"
proof (induction k)
  case 0
  then show ?case using positive_prime_gt1 [of p] by simp
next
  case (Suc k)
  then show ?case using prime_dvd_mult [of p a "a ^ k"] by auto
qed

lemma prime_dvd_prime: 
  "positive_prime p \<Longrightarrow> positive_prime q \<Longrightarrow> p dvd q \<Longrightarrow> p = q"
  by (metis positive_prime_iff less_irrefl less_trans zero_less_one)

lemma no_divisor_nonzero:
  "0 \<notin> set ps \<Longrightarrow> no_divisor c ps = Ok (\<forall>p \<in> set ps. \<not> p dvd c)"
  by (induction ps) (auto simp: dvd_eq_mod_eq_0)

lemma even_not_prime: "even n \<Longrightarrow> 2 < n \<Longrightarrow> \<not> positive_prime n"
  by (auto simp: positive_prime_def intro!: bexI [of _ 2])

lemma candidate_prime:
  assumes "9 \<le> t" "odd t"
  shows "positive_prime (t + 2) \<longleftrightarrow> (\<forall>p \<in> set (filter positive_prime [3..t]). \<not> p dvd (t + 2))"
proof
  assume pp: "positive_prime (t + 2)"
  show "\<forall>p \<in> set (filter positive_prime [3..t]). \<not> p dvd (t + 2)"
  proof
    fix p assume "p \<in> set (filter positive_prime [3..t])"
    then have "3 \<le> p" "p \<le> t" by auto
    with pp show "\<not> p dvd (t + 2)" by (auto simp: positive_prime_def)
  qed
next
  assume nd: "\<forall>p \<in> set (filter positive_prime [3..t]). \<not> p dvd (t + 2)"
  show "positive_prime (t + 2)"
  proof (rule ccontr)
    assume "\<not> positive_prime (t + 2)"
    with small_prime_divisor [of "t + 2"] assms obtain p
      where p: "positive_prime p" "p dvd t + 2" "p * p \<le> t + 2" by auto
    have p1: "1 < p" by (rule positive_prime_gt1 [OF p(1)])
    have "p \<noteq> 2" using p(2) assms(2) by auto
    with p1 have p3: "3 \<le> p" by simp
    have "p \<le> t"
    proof (rule ccontr)
      assume "\<not> p \<le> t"
      then have "t + 1 \<le> p" by simp
      then have "(t + 1) * 3 \<le> p * p" using p3 assms(1) by (intro mult_mono) auto
      with p(3) assms(1) show False by simp
    qed
    with p3 p(1) have "p \<in> set (filter positive_prime [3..t])" by simp
    with nd p(2) show False by blast
  qed
qed

lemma filter_prime_step:
  assumes "9 \<le> t" "odd t"
  shows "filter positive_prime [3..t + 2] =
         filter positive_prime [3..t] @ (if positive_prime (t + 2) then [t + 2] else [])"
proof -
  have "[3..t + 2] = [3..t + 2 - 1] @ [t + 2]"
    by (rule upto_rec2) (use assms in simp)
  also have "t + 2 - 1 = t + 1" by simp
  also have "[3..t + 1] = [3..t + 1 - 1] @ [t + 1]"
    by (rule upto_rec2) (use assms in simp)
  also have "t + 1 - 1 = t" by simp
  finally have "[3..t + 2] = [3..t] @ [t + 1, t + 2]" by simp
  moreover have "\<not> positive_prime (t + 1)"
    using assms by (intro even_not_prime) auto
  ultimately show ?thesis by simp
qed

lemma sieve_inv_nonzero: "sieve_inv st \<Longrightarrow> 0 \<notin> set (odd_primes_list st)"
  by (auto simp: sieve_inv_def)

lemma sieve_step_inv:
  assumes "sieve_inv st"
  shows "no_divisor (last_tested st + 2) (odd_primes_list st) = Ok (positive_prime (last_tested st + 2))"
    and "sieve_inv (if positive_prime (last_tested st + 2)
          then st\<lparr>last_tested := last_tested st + 2,
                  odd_primes_list := odd_primes_list st @ [last_tested st + 2],
                  small_primes_set := insert (last_tested st + 2) (small_primes_set st)\<rparr>
          else st\<lparr>last_tested := last_tested st + 2\<rparr>)"
proof -
  from assms have t: "9 \<le> last_tested st" "odd (last_tested st)"
    and l: "odd_primes_list st = filter positive_prime [3..last_tested st]"
    and s: "small_primes_set st = insert 2 (set (odd_primes_list st))"
    by (auto simp: sieve_inv_def)
  show "no_divisor (last_tested st + 2) (odd_primes_list st) = Ok (positive_prime (last_tested st + 2))"
    using no_divisor_nonzero [OF sieve_inv_nonzero [OF assms], of "last_tested st + 2"]
      candidate_prime [OF t] l by simp
  show "sieve_inv (if positive_prime (last_tested st + 2)
          then st\<lparr>last_tested := last_tested st + 2,
                  odd_primes_list := odd_primes_list st @ [last_tested st + 2],
                  small_primes_set := insert (last_tested st + 2) (small_primes_set st)\<rparr>
          else st\<lparr>last_tested := last_tested st + 2\<rparr>)"
    using t l s filter_prime_step [OF t] by (auto simp: sieve_inv_def)
qed

lemma sieve_loop_inv:
  "sieve_inv st \<Longrightarrow>
   \<exists>st'. sieve_loop st stop = (Ok (), st') \<and> sieve_inv st' \<and>
         last_tested st \<le> last_tested st' \<and> stop \<le> last_tested st' \<and>
         (stop \<le> last_tested st \<longrightarrow> st' = st)"
proof (induction st stop rule: sieve_loop.induct)
  case (1 st stop)
  show ?case
  proof (cases "stop > last_tested st")
    case False
    then show ?thesis using "1.prems" by simp
  next
    case True
    let ?c = "last_tested st + 2"
    let ?st1 = "st\<lparr>last_tested := ?c\<rparr>"
    let ?st2 = "if positive_prime ?c
                then ?st1\<lparr>odd_primes_list := odd_primes_list ?st1 @ [last_tested ?st1],
                         small_primes_set := insert (last_tested ?st1) (small_primes_set ?st1)\<rparr>
                else ?st1"
    have nd: "no_divisor (last_tested ?st1) (odd_primes_list ?st1) = Ok (positive_prime ?c)"
      using sieve_step_inv(1) [OF "1.prems"] by simp
    have inv2: "sieve_inv ?st2"
      using sieve_step_inv(2) [OF "1.prems"] by (cases "positive_prime ?c") simp_all
    have step: "sieve_loop st stop = sieve_loop ?st2 stop"
      using True nd by (subst sieve_loop.simps) (simp add: Let_def)
    from "1.IH" [OF True refl nd inv2] obtain st' where
      "sieve_loop ?st2 stop = (Ok (), st')" "sieve_inv st'"
      "last_tested ?st2 \<le> last_tested st'" "stop \<le> last_tested st'"
      by auto
    with step True show ?thesis by (auto split: if_splits)
  qed
qed

lemma sieve_inv_initial: "sieve_inv initial_state"
  by code_simp

lemma loaded_state_sieved: "sieve initial_state 20 = (Ok (), loaded_state)"
  by code_simp

lemma sieve_inv_loaded: "sieve_inv loaded_state"
  by code_simp

lemma sieve_inv_sieve:
  assumes "sieve_inv st"
  shows "\<exists>st'. sieve st stop = (Ok (), st') \<and> sieve_inv st' \<and>
           last_tested st \<le> last_tested st' \<and> (stop \<noteq> 0 \<longrightarrow> \<bar>stop\<bar> \<le> last_tested st')"
proof (cases "stop = 0")
  case True
  with assms show ?thesis by (simp add: sieve_def)
next
  case False
  with sieve_loop_inv [OF assms, of "\<bar>stop\<bar>"] show ?thesis
    by (auto simp: sieve_def)
qed

lemma sieve_calls_inv:
  "sieve_inv st \<Longrightarrow> \<exists>st'. sieve_calls st stops = (Ok (), st') \<and> sieve_inv st'"
proof (induction stops arbitrary: st)
  case Nil
  then show ?case by simp
next
  case (Cons stop stops)
  from sieve_inv_sieve [OF Cons.prems, of stop] obtain st1
    where "sieve st stop = (Ok (), st1)" "sieve_inv st1" by blast
  with Cons.IH [of st1] show ?case by simp
qed

lemma odd_prime_iff:
  assumes "positive_prime p" shows "odd p \<longleftrightarrow> 3 \<le> p"
proof
  assume "odd p"
  then have "p \<noteq> 2" by auto
  with positive_prime_gt1 [OF assms] show "3 \<le> p" by simp
next
  assume "3 \<le> p"
  with even_not_prime [of p] assms show "odd p" by auto
qed

lemma sieve_inv_set:
  assumes "sieve_inv st"
  shows "small_primes_set st = {p. positive_prime p \<and> p \<le> last_tested st}"
proof -
  have two: "positive_prime 2" by code_simp
  from assms have t: "9 \<le> last_tested st"
    and s: "small_primes_set st = insert 2 (set (filter positive_prime [3..last_tested st]))"
    by (auto simp: sieve_inv_def)
  show ?thesis
  proof (rule set_eqI)
    fix p
    show "p \<in> small_primes_set st \<longleftrightarrow> p \<in> {p. positive_prime p \<and> p \<le> last_tested st}"
    proof (cases "p = 2")
      case True
      with two t s show ?thesis by simp
    next
      case False
      then have "positive_prime p \<Longrightarrow> 3 \<le> p"
        using positive_prime_gt1 [of p] by simp
      with False s show ?thesis by auto
    qed
  qed
qed

lemma sieve_inv_list_set:
  assumes "sieve_inv st"
  shows "set (odd_primes_list st) = {p. odd p \<and> positive_prime p \<and> p \<le> last_tested st}"
  using assms odd_prime_iff by (auto simp: sieve_inv_def)

lemma sieve_inv_sorted: "sieve_inv st \<Longrightarrow> sorted_wrt (<) (odd_primes_list st)"
  by (simp add: sieve_inv_def sorted_wrt_filter)

section \<open>The table after sieving\<close>

text \<open>
  C2: after any sequence of \<open>sieve\<close> calls on the initial table, every call has returned,
  \<open>small_primes_set\<close> is 2 together with the odd primes up to \<open>last_tested\<close>,
  \<open>odd_primes_list\<close> holds exactly those odd primes, in strictly ascending order, every
  number up to \<open>last_tested\<close> is in the set exactly when it is prime, and nothing that is
  not prime is in the set or the list. A further call is a longer sequence.
\<close>

theorem sieve_table_invariant:
  "\<exists>st. sieve_calls initial_state stops = (Ok (), st) \<and>
     small_primes_set st = insert 2 {p. odd p \<and> positive_prime p \<and> p \<le> last_tested st} \<and>
     set (odd_primes_list st) = {p. odd p \<and> positive_prime p \<and> p \<le> last_tested st} \<and>
     sorted_wrt (<) (odd_primes_list st) \<and>
     (\<forall>c. c \<le> last_tested st \<longrightarrow> (c \<in> small_primes_set st \<longleftrightarrow> positive_prime c)) \<and>
     (\<forall>c. \<not> positive_prime c \<longrightarrow> c \<notin> small_primes_set st \<and> c \<notin> set (odd_primes_list st))"
proof -
  from sieve_calls_inv [OF sieve_inv_initial, of stops] obtain st
    where run: "sieve_calls initial_state stops = (Ok (), st)" and inv: "sieve_inv st"
    by blast
  have l: "set (odd_primes_list st) = {p. odd p \<and> positive_prime p \<and> p \<le> last_tested st}"
    by (rule sieve_inv_list_set [OF inv])
  have s: "small_primes_set st = {p. positive_prime p \<and> p \<le> last_tested st}"
    by (rule sieve_inv_set [OF inv])
  have s2: "small_primes_set st = insert 2 (set (odd_primes_list st))"
    using inv by (simp add: sieve_inv_def)
  have "small_primes_set st = insert 2 {p. odd p \<and> positive_prime p \<and> p \<le> last_tested st}"
    using s2 l by simp
  moreover have "\<forall>c. c \<le> last_tested st \<longrightarrow> (c \<in> small_primes_set st \<longleftrightarrow> positive_prime c)"
    using s by simp
  moreover have
    "\<forall>c. \<not> positive_prime c \<longrightarrow> c \<notin> small_primes_set st \<and> c \<notin> set (odd_primes_list st)"
    using s l by simp
  ultimately show ?thesis
    using run l sieve_inv_sorted [OF inv] by blast
qed

theorem sieve_table_invariant_witness:
  "last_tested (snd (sieve_calls initial_state [20, - 30])) = 31 \<and>
   (\<exists>st. sieve_calls initial_state [20, - 30] = (Ok (), st) \<and>
     small_primes_set st = insert 2 {p. odd p \<and> positive_prime p \<and> p \<le> last_tested st} \<and>
     set (odd_primes_list st) = {p. odd p \<and> positive_prime p \<and> p \<le> last_tested st} \<and>
     sorted_wrt (<) (odd_primes_list st) \<and>
     (\<forall>c. c \<le> last_tested st \<longrightarrow> (c \<in> small_primes_set st \<longleftrightarrow> positive_prime c)) \<and>
     (\<forall>c. \<not> positive_prime c \<longrightarrow> c \<notin> small_primes_set st \<and> c \<notin> set (odd_primes_list st)))"
proof
  show "last_tested (snd (sieve_calls initial_state [20, - 30])) = 31"
    by code_simp
qed (rule sieve_table_invariant)

section \<open>The oracle without sieving\<close>

text \<open>
  C3: on a table the sieve has built, \<open>is_irreducible(n, sieve=False)\<close> returns \<open>Maybe\<close>
  exactly when \<open>last_tested\<close> squared is at most \<open>abs(n)\<close> and no prime of the table
  divides \<open>n\<close>; every other answer is the boolean that says whether \<open>abs(n)\<close> is prime.
\<close>

theorem is_irreducible_no_sieve:
  assumes inv: "sieve_inv st"
  shows "(fst (is_irreducible st n False) = Ok Maybe \<longleftrightarrow>
            last_tested st * last_tested st \<le> \<bar>n\<bar> \<and> (\<forall>p \<in> small_primes_set st. \<not> p dvd n)) \<and>
         (fst (is_irreducible st n False) \<noteq> Ok Maybe \<longrightarrow>
            fst (is_irreducible st n False) = Ok (Bool (positive_prime \<bar>n\<bar>)))"
proof -
  let ?t = "last_tested st"
  let ?a = "\<bar>n\<bar>"
  from inv have t: "9 \<le> ?t"
    and l: "odd_primes_list st = filter positive_prime [3..?t]"
    and s: "small_primes_set st = insert 2 (set (odd_primes_list st))"
    by (auto simp: sieve_inv_def)
  have sset: "small_primes_set st = {p. positive_prime p \<and> p \<le> ?t}"
    by (rule sieve_inv_set [OF inv])
  have nd: "no_divisor ?a (odd_primes_list st) = Ok (\<forall>p \<in> set (odd_primes_list st). \<not> p dvd n)"
    using no_divisor_nonzero [OF sieve_inv_nonzero [OF inv], of ?a] by simp
  have tt: "?t < ?t * ?t" using t by (simp add: mult_less_cancel_right1)
  define undiv where "undiv = (\<forall>p \<in> set (odd_primes_list st). \<not> p dvd n)"
  have nd': "no_divisor ?a (odd_primes_list st) = Ok undiv"
    using nd by (simp add: undiv_def)
  have trial: "fst (is_irreducible st n False) =
      (if undiv then (if ?a < ?t * ?t then Ok (Bool True) else Ok Maybe) else Ok (Bool False))"
    if "?a \<notin> small_primes_set st" "?t < ?a" "odd ?a"
  proof -
    have "?a mod 2 \<noteq> 0" using that(3) by presburger
    with that(1,2) nd' show ?thesis by (simp add: is_irreducible_def Let_def)
  qed
  consider (known) "?a \<in> small_primes_set st"
    | (below) "?a \<notin> small_primes_set st" "?a \<le> ?t"
    | (even) "?a \<notin> small_primes_set st" "?t < ?a" "even ?a"
    | (divided) "?a \<notin> small_primes_set st" "?t < ?a" "odd ?a"
        "\<not> (\<forall>p \<in> set (odd_primes_list st). \<not> p dvd n)"
    | (undivided) "?a \<notin> small_primes_set st" "?t < ?a" "odd ?a"
        "\<forall>p \<in> set (odd_primes_list st). \<not> p dvd n"
    by fastforce
  then show ?thesis
  proof cases
    case known
    then have r: "fst (is_irreducible st n False) = Ok (Bool True)"
      by (simp add: is_irreducible_def)
    have "positive_prime ?a" using known sset by simp
    moreover have "\<exists>p \<in> small_primes_set st. p dvd n"
      using known by (intro bexI [of _ ?a]) simp_all
    ultimately show ?thesis using r by simp
  next
    case below
    then have r: "fst (is_irreducible st n False) = Ok (Bool False)"
      by (simp add: is_irreducible_def)
    have "\<not> positive_prime ?a" using below sset by simp
    moreover have "\<not> ?t * ?t \<le> ?a" using below(2) tt by simp
    ultimately show ?thesis using r by simp
  next
    case even
    then have r: "fst (is_irreducible st n False) = Ok (Bool False)"
      by (simp add: is_irreducible_def)
    have "\<not> positive_prime ?a" using even t by (intro even_not_prime) auto
    moreover have "2 \<in> small_primes_set st" "2 dvd n" using s even(3) by simp_all
    ultimately show ?thesis using r by auto
  next
    case divided
    then have r: "fst (is_irreducible st n False) = Ok (Bool False)"
      using trial by (simp add: undiv_def)
    from divided(4) obtain p where p: "p \<in> set (odd_primes_list st)" "p dvd n" by blast
    then have "3 \<le> p" "p \<le> ?t" using l by auto
    then have "2 \<le> p" "p < ?a" "p dvd ?a" using divided(2) p(2) by simp_all
    then have "\<not> positive_prime ?a" by (auto simp: positive_prime_def)
    moreover have "p \<in> small_primes_set st" using p(1) s by simp
    ultimately show ?thesis using r p(2) by auto
  next
    case undivided
    have odd_n: "\<not> 2 dvd n" using undivided(3) by simp
    have nodiv: "\<forall>p \<in> small_primes_set st. \<not> p dvd n"
      using undivided(4) odd_n s by auto
    show ?thesis
    proof (cases "?a < ?t * ?t")
      case True
      then have r: "fst (is_irreducible st n False) = Ok (Bool True)"
        using undivided trial by (simp add: undiv_def)
      have "positive_prime ?a"
      proof (rule ccontr)
        assume "\<not> positive_prime ?a"
        with small_prime_divisor [of ?a] undivided(2) t obtain p
          where p: "positive_prime p" "p dvd ?a" "p * p \<le> ?a" by auto
        have "0 < p" using positive_prime_gt1 [OF p(1)] by simp
        have "p \<le> ?t"
        proof (rule ccontr)
          assume "\<not> p \<le> ?t"
          then have "?t * ?t \<le> p * p" using t by (intro mult_mono) auto
          with p(3) True show False by simp
        qed
        with p(1) sset have "p \<in> small_primes_set st" by simp
        with nodiv p(2) show False by auto
      qed
      with r True show ?thesis by simp
    next
      case False
      then have r: "fst (is_irreducible st n False) = Ok Maybe"
        using undivided trial by (simp add: undiv_def)
      with False nodiv show ?thesis by simp
    qed
  qed
qed

theorem is_irreducible_no_sieve_witness:
  "sieve_inv loaded_state \<and>
   fst (is_irreducible loaded_state (23 * 23) False) = Ok Maybe \<and>
   last_tested loaded_state * last_tested loaded_state \<le> \<bar>23 * 23\<bar> \<and>
   fst (is_irreducible loaded_state (- 23) False) = Ok (Bool (positive_prime \<bar>- 23\<bar>))"
proof -
  have m: "fst (is_irreducible loaded_state (23 * 23) False) = Ok Maybe"
    by code_simp
  have b: "fst (is_irreducible loaded_state (- 23) False) \<noteq> Ok Maybe"
    by code_simp
  show ?thesis
    using sieve_inv_loaded m b
      is_irreducible_no_sieve [OF sieve_inv_loaded, of "23 * 23"]
      is_irreducible_no_sieve [OF sieve_inv_loaded, of "- 23"]
    by simp
qed

section \<open>The factoriser\<close>

lemma extract_power_loop_spec:
  assumes "1 < p" "1 \<le> n"
  shows "\<exists>k q. extract_power_loop e n p = Some (Ok (e + int k, q)) \<and>
           n = p ^ k * q \<and> \<not> p dvd q \<and> 1 \<le> q"
  using assms(2)
proof (induction "nat n" arbitrary: n e rule: less_induct)
  case less
  show ?case
  proof (cases "n mod p = 0")
    case False
    then have "extract_power_loop e n p = Some (Ok (e + int 0, n))"
      using assms(1) by (subst extract_power_loop.simps) simp
    moreover have "\<not> p dvd n" using False by (simp add: dvd_eq_mod_eq_0)
    ultimately show ?thesis using less.prems by (intro exI [of _ 0] exI [of _ n]) simp
  next
    case True
    then have n: "n = p * (n div p)" by auto
    have pos: "1 \<le> n div p"
      using less.prems assms(1) n by (smt (verit) zero_less_mult_pos)
    have "n div p < n"
      using less.prems assms(1) by (intro int_div_less_self) auto
    then have "nat (n div p) < nat n" using pos by simp
    from less.hyps [OF this pos, of "e + 1"] obtain k q where
      kq: "extract_power_loop (e + 1) (n div p) p = Some (Ok (e + 1 + int k, q))"
        "n div p = p ^ k * q" "\<not> p dvd q" "1 \<le> q" by blast
    have "extract_power_loop e n p = extract_power_loop (e + 1) (n div p) p"
      using True assms(1) by (subst extract_power_loop.simps) simp
    with kq(1) have "extract_power_loop e n p = Some (Ok (e + int (Suc k), q))" by simp
    moreover have "n = p ^ Suc k * q" using n kq(2) by simp
    ultimately show ?thesis using kq(3,4) by blast
  qed
qed

lemma extract_power_spec:
  assumes "1 < p" "1 \<le> n"
  shows "\<exists>k q. extract_power n p = Some (Ok (int k, q)) \<and>
           n = p ^ k * q \<and> \<not> p dvd q \<and> 1 \<le> q"
  using extract_power_loop_spec [OF assms, of 0] by (simp add: extract_power_def)

lemma pairs_value_simps [simp]:
  "pairs_value [] = 1"
  "pairs_value ((p, e) # pes) = p ^ nat e * pairs_value pes"
  "pairs_value (xs @ ys) = pairs_value xs * pairs_value ys"
  by (simp_all add: pairs_value_def)

lemma scan_known_spec:
  assumes "\<forall>p \<in> set ps. 1 < p" "sorted_wrt (<) ps" "1 < n"
  shows "\<exists>fin n' pes.
           scan_known ps n factors = Some (Ok (fin, n', factors @ map (case_prod Power) pes)) \<and>
           n = pairs_value pes * n' \<and> 1 \<le> n' \<and> fin = (n' = 1) \<and>
           set (map fst pes) \<subseteq> set ps \<and> sorted_wrt (<) (map fst pes) \<and>
           (\<forall>x \<in> set pes. 1 \<le> snd x) \<and>
           (\<forall>p \<in> set ps. \<not> p dvd n')"
  using assms
proof (induction ps arbitrary: n factors)
  case Nil
  then show ?case by (intro exI [of _ False] exI [of _ n] exI [of _ "[]"]) simp
next
  case (Cons p ps)
  from Cons.prems have p1: "1 < p" and n1: "1 \<le> n" by auto
  from extract_power_spec [OF p1 n1] obtain k q where
    ex: "extract_power n p = Some (Ok (int k, q))" and
    nq: "n = p ^ k * q" and pq: "\<not> p dvd q" and q1: "1 \<le> q" by blast
  define step where "step = (if 0 < k then [(p, int k)] else [])"
  have stepval: "pairs_value step = p ^ k" by (simp add: step_def)
  have stepfs: "(if int k > 0 then factors @ [Power p (int k)] else factors) =
                factors @ map (case_prod Power) step"
    by (simp add: step_def)
  have stepset: "set (map fst step) \<subseteq> {p}" "\<forall>x \<in> set step. 1 \<le> snd x"
    by (auto simp: step_def)
  show ?case
  proof (cases "q = 1")
    case True
    have "scan_known (p # ps) n factors =
          Some (Ok (True, q, factors @ map (case_prod Power) step))"
      using ex True stepfs by (simp add: Let_def)
    moreover have "\<forall>r \<in> set (p # ps). \<not> r dvd q"
      using True Cons.prems(1) by auto
    ultimately show ?thesis
      using True nq stepval stepset
      by (intro exI [of _ True] exI [of _ q] exI [of _ step]) (auto simp: step_def)
  next
    case False
    with q1 have q2: "1 < q" by simp
    from Cons.prems have ps: "\<forall>r \<in> set ps. 1 < r" "sorted_wrt (<) ps" "\<forall>r \<in> set ps. p < r"
      by auto
    from Cons.IH [OF ps(1,2) q2, of "factors @ map (case_prod Power) step"]
    obtain fin n' pes where
      r: "scan_known ps q (factors @ map (case_prod Power) step) =
            Some (Ok (fin, n', (factors @ map (case_prod Power) step) @ map (case_prod Power) pes))"
      and v: "q = pairs_value pes * n'" and n': "1 \<le> n'" and f: "fin = (n' = 1)"
      and sub: "set (map fst pes) \<subseteq> set ps" and srt: "sorted_wrt (<) (map fst pes)"
      and ex1: "\<forall>x \<in> set pes. 1 \<le> snd x" and nd: "\<forall>r \<in> set ps. \<not> r dvd n'"
      by blast
    have run: "scan_known (p # ps) n factors =
          Some (Ok (fin, n', factors @ map (case_prod Power) (step @ pes)))"
      using ex False stepfs r by (simp add: Let_def)
    have val: "n = pairs_value (step @ pes) * n'"
      using nq v stepval by simp
    have "n' dvd q" using v by simp
    with pq have pn': "\<not> p dvd n'" by (meson dvd_trans)
    have srt': "sorted_wrt (<) (map fst (step @ pes))"
      using srt sub ps(3) by (auto simp: step_def sorted_wrt_append)
    have sub': "set (map fst (step @ pes)) \<subseteq> set (p # ps)"
      using sub stepset(1) by auto
    have ex': "\<forall>x \<in> set (step @ pes). 1 \<le> snd x"
      using ex1 stepset(2) by auto
    show ?thesis
      using run val n' f sub' srt' ex' pn' nd
      by (intro exI [of _ fin] exI [of _ n'] exI [of _ "step @ pes"]) simp
  qed
qed

lemma scan_new_known:
  assumes "scan_known (drop m ps) n factors = Some (Ok (fin, n', fs'))" "m \<le> length ps"
  shows "\<exists>m'. scan_new ps m n factors = Some (Ok (m', n', fs')) \<and> m' \<le> length ps \<and>
           (\<not> fin \<longrightarrow> m' = length ps)"
  using assms
proof (induction ps m n factors rule: scan_new.induct)
  case (1 ps m n factors)
  show ?case
  proof (cases "m < length ps")
    case False
    with "1.prems" show ?thesis by (subst scan_new.simps) simp
  next
    case True
    then have d: "drop m ps = ps ! m # drop (Suc m) ps"
      by (simp add: Cons_nth_drop_Suc)
    from "1.prems"(1) obtain e q where ex: "extract_power n (ps ! m) = Some (Ok (e, q))"
      unfolding d by (auto split: option.splits result.splits)
    define fs1 where "fs1 = (if e > 0 then factors @ [Power (ps ! m) e] else factors)"
    show ?thesis
    proof (cases "q = 1")
      case q: True
      have "scan_new ps m n factors = Some (Ok (Suc m, q, fs1))"
        using True ex q by (subst scan_new.simps) (simp add: fs1_def Let_def)
      moreover have "fin" "n' = q" "fs' = fs1"
        using "1.prems"(1) ex q unfolding d by (simp_all add: fs1_def Let_def)
      ultimately show ?thesis using True by simp
    next
      case q: False
      have k: "scan_known (drop (Suc m) ps) q fs1 = Some (Ok (fin, n', fs'))"
        using "1.prems"(1) ex q unfolding d by (simp add: fs1_def Let_def)
      have "Suc m \<le> length ps" using True by simp
      from "1.IH" [OF True ex refl refl refl q k [unfolded fs1_def] this]
      obtain m' where "scan_new ps (Suc m) q fs1 = Some (Ok (m', n', fs'))"
        "m' \<le> length ps" "\<not> fin \<longrightarrow> m' = length ps"
        by (auto simp: fs1_def)
      moreover have "scan_new ps m n factors = scan_new ps (Suc m) q fs1"
        using True ex q by (subst scan_new.simps) (simp add: fs1_def Let_def)
      ultimately show ?thesis by simp
    qed
  qed
qed

lemma sieve_inv_extend:
  assumes "sieve_inv st" "sieve_inv st'" "last_tested st \<le> last_tested st'"
  shows "odd_primes_list st' =
         odd_primes_list st @ filter positive_prime [last_tested st + 1..last_tested st']"
proof -
  have "[3..last_tested st'] = [3..last_tested st] @ [last_tested st + 1..last_tested st']"
    using assms by (intro upto_split2) (auto simp: sieve_inv_def)
  with assms(1,2) show ?thesis by (simp add: sieve_inv_def)
qed

lemma prime_bound:
  assumes "1 < n" "\<forall>p. positive_prime p \<and> p \<le> t \<longrightarrow> \<not> p dvd n"
  shows "t < n"
proof -
  from prime_divisor_exists [OF assms(1)] obtain q where q: "positive_prime q" "q dvd n"
    by blast
  then have "q \<le> n" using assms(1) by (simp add: zdvd_imp_le)
  moreover have "t < q" using q assms(2) by force
  ultimately show ?thesis by simp
qed

lemma grow_loop_spec:
  assumes g: "stop_grows g"
  shows "sieve_inv st \<Longrightarrow> m = length (odd_primes_list st) \<Longrightarrow> 1 \<le> n \<Longrightarrow>
         \<forall>p. positive_prime p \<and> p \<le> last_tested st \<longrightarrow> \<not> p dvd n \<Longrightarrow>
         \<exists>st' pes. grow_loop g st m n factors =
                     Some (Ok (factors @ map (case_prod Power) pes), st') \<and>
           sieve_inv st' \<and> last_tested st \<le> last_tested st' \<and> n = pairs_value pes \<and>
           sorted_wrt (<) (map fst pes) \<and>
           (\<forall>x \<in> set pes. positive_prime (fst x) \<and> last_tested st < fst x \<and> 1 \<le> snd x)"
proof (induction "nat (n - last_tested st)" arbitrary: st m n factors rule: less_induct)
  case less
  show ?case
  proof (cases "1 < n")
    case False
    with less.prems(3) have "n = 1" by simp
    then have "grow_loop g st m n factors = Some (Ok (factors @ map (case_prod Power) []), st)"
      by (subst grow_loop.simps) simp
    with less.prems(1) \<open>n = 1\<close> show ?thesis
      by (intro exI [of _ st] exI [of _ "[]"]) simp
  next
    case True
    let ?t = "last_tested st"
    have t9: "9 \<le> ?t" using less.prems(1) by (simp add: sieve_inv_def)
    have tn: "?t < n" by (rule prime_bound [OF True less.prems(4)])
    have gt: "?t < g ?t" using g t9 by (simp add: stop_grows_def)
    from sieve_inv_sieve [OF less.prems(1), of "g ?t"] gt t9 obtain st1 where
      sv: "sieve st (g ?t) = (Ok (), st1)" and inv1: "sieve_inv st1" and
      t1: "?t < last_tested st1"
      by fastforce
    let ?t1 = "last_tested st1"
    define new where "new = filter positive_prime [?t + 1..?t1]"
    have l1: "odd_primes_list st1 = odd_primes_list st @ new"
      using sieve_inv_extend [OF less.prems(1) inv1] t1 by (simp add: new_def)
    then have dr: "drop m (odd_primes_list st1) = new" and ml: "m \<le> length (odd_primes_list st1)"
      using less.prems(2) by simp_all
    have new1: "\<forall>p \<in> set new. 1 < p" by (auto simp: new_def positive_prime_gt1)
    have news: "sorted_wrt (<) new" by (simp add: new_def sorted_wrt_filter)
    from scan_known_spec [OF new1 news True, of factors] obtain fin n' pes1 where
      sk: "scan_known new n factors = Some (Ok (fin, n', factors @ map (case_prod Power) pes1))"
      and v1: "n = pairs_value pes1 * n'" and n'1: "1 \<le> n'" and fin: "fin = (n' = 1)"
      and sub1: "set (map fst pes1) \<subseteq> set new" and srt1: "sorted_wrt (<) (map fst pes1)"
      and e1: "\<forall>x \<in> set pes1. 1 \<le> snd x" and nd1: "\<forall>p \<in> set new. \<not> p dvd n'"
      by blast
    from scan_new_known [OF sk [folded dr] ml] obtain m' where
      sn: "scan_new (odd_primes_list st1) m n factors =
             Some (Ok (m', n', factors @ map (case_prod Power) pes1))"
      and m': "\<not> fin \<longrightarrow> m' = length (odd_primes_list st1)"
      by blast
    have step: "grow_loop g st m n factors =
                grow_loop g st1 m' n' (factors @ map (case_prod Power) pes1)"
      using True sv sn by (subst grow_loop.simps) simp
    have p1: "\<forall>x \<in> set pes1. positive_prime (fst x) \<and> ?t < fst x \<and> fst x \<le> ?t1 \<and> 1 \<le> snd x"
    proof
      fix x assume x: "x \<in> set pes1"
      then have "fst x \<in> set new" using sub1 by auto
      then show "positive_prime (fst x) \<and> ?t < fst x \<and> fst x \<le> ?t1 \<and> 1 \<le> snd x"
        using e1 x by (auto simp: new_def)
    qed
    show ?thesis
    proof (cases "n' = 1")
      case one: True
      have "grow_loop g st1 m' n' (factors @ map (case_prod Power) pes1) =
            Some (Ok (factors @ map (case_prod Power) pes1), st1)"
        using one by (subst grow_loop.simps) simp
      with step have "grow_loop g st m n factors =
            Some (Ok (factors @ map (case_prod Power) pes1), st1)" by simp
      moreover have "n = pairs_value pes1" using v1 one by simp
      ultimately show ?thesis using inv1 t1 srt1 p1
        by (intro exI [of _ st1] exI [of _ pes1]) auto
    next
      case more: False
      with fin m' have mlen: "m' = length (odd_primes_list st1)" by simp
      have dv: "n' dvd n" using v1 by simp
      have npos: "0 < n" using True by simp
      have le: "n' \<le> n" using dv npos by (simp add: zdvd_imp_le)
      have pre: "\<forall>p. positive_prime p \<and> p \<le> ?t1 \<longrightarrow> \<not> p dvd n'"
      proof (intro allI impI)
        fix p assume p: "positive_prime p \<and> p \<le> ?t1"
        show "\<not> p dvd n'"
        proof (cases "p \<le> ?t")
          case True
          with p less.prems(4) have "\<not> p dvd n" by blast
          with dv show ?thesis by (meson dvd_trans)
        next
          case False
          with p have "p \<in> set new" by (simp add: new_def)
          with nd1 show ?thesis by blast
        qed
      qed
      have dec: "nat (n' - ?t1) < nat (n - ?t)" using le t1 tn by simp
      from less.hyps [OF dec inv1 mlen n'1 pre, of "factors @ map (case_prod Power) pes1"]
      obtain st2 pes2 where
        r2: "grow_loop g st1 m' n' (factors @ map (case_prod Power) pes1) =
               Some (Ok ((factors @ map (case_prod Power) pes1) @ map (case_prod Power) pes2), st2)"
        and inv2: "sieve_inv st2" and t2: "?t1 \<le> last_tested st2"
        and v2: "n' = pairs_value pes2" and srt2: "sorted_wrt (<) (map fst pes2)"
        and p2: "\<forall>x \<in> set pes2. positive_prime (fst x) \<and> ?t1 < fst x \<and> 1 \<le> snd x"
        by blast
      have run: "grow_loop g st m n factors =
                 Some (Ok (factors @ map (case_prod Power) (pes1 @ pes2)), st2)"
        using step r2 by simp
      have val: "n = pairs_value (pes1 @ pes2)" using v1 v2 by simp
      have srt: "sorted_wrt (<) (map fst (pes1 @ pes2))"
        using srt1 srt2 p1 p2 by (fastforce simp: sorted_wrt_append)
      have pp: "\<forall>x \<in> set (pes1 @ pes2). positive_prime (fst x) \<and> ?t < fst x \<and> 1 \<le> snd x"
        using p1 p2 t1 by fastforce
      show ?thesis
        using run inv2 t1 t2 val srt pp
        by (intro exI [of _ st2] exI [of _ "pes1 @ pes2"]) simp
    qed
  qed
qed

lemma sorted_fst_append:
  fixes xs ys :: "(int \<times> int) list"
  assumes "sorted_wrt (<) (map fst xs)" "sorted_wrt (<) (map fst ys)"
    "\<forall>x \<in> set xs. fst x \<le> b" "\<forall>y \<in> set ys. b < fst y"
  shows "sorted_wrt (<) (map fst (xs @ ys))"
  using assms by (fastforce simp: sorted_wrt_append)

lemma factor_slow_spec:
  assumes g: "stop_grows g" and inv: "sieve_inv st" and nz: "n0 \<noteq> 0"
  shows "\<exists>st' pes. factor_slow g st n0 =
                     Some (Ok (ListR (Scalar (sgn n0) # map (case_prod Power) pes)), st') \<and>
           sieve_inv st' \<and> last_tested st \<le> last_tested st' \<and> \<bar>n0\<bar> = pairs_value pes \<and>
           sorted_wrt (<) (map fst pes) \<and>
           (\<forall>x \<in> set pes. positive_prime (fst x) \<and> 1 \<le> snd x)"
proof -
  let ?n = "\<bar>n0\<bar>"
  let ?u = "[Scalar (sgn n0)]"
  have unit: "(if n0 > 0 then 1 else - 1) = sgn n0" using nz by (simp add: sgn_if)
  have n1: "1 \<le> ?n" using nz by simp
  have two: "positive_prime 2" by code_simp
  show ?thesis
  proof (cases "?n = 1")
    case True
    then have "factor_slow g st n0 = Some (Ok (ListR (Scalar (sgn n0) # map (case_prod Power) [])), st)"
      using nz unit by (simp add: factor_slow_def Let_def)
    with inv True show ?thesis
      by (intro exI [of _ st] exI [of _ "[]"]) simp
  next
    case False
    from extract_power_spec [of 2 ?n] n1 obtain k n2 where
      ex: "extract_power ?n 2 = Some (Ok (int k, n2))" and
      v2: "?n = 2 ^ k * n2" and odd2: "\<not> 2 dvd n2" and n2: "1 \<le> n2" by auto
    define step where "step = (if 0 < k then [(2 :: int, int k)] else [])"
    have stepval: "pairs_value step = 2 ^ k" by (simp add: step_def)
    have stepfs: "(if int k > 0 then ?u @ [Power 2 (int k)] else ?u) =
                  Scalar (sgn n0) # map (case_prod Power) step"
      by (simp add: step_def)
    have stepp: "\<forall>x \<in> set step. fst x = 2 \<and> 1 \<le> snd x" by (simp add: step_def)
    define fs2 where "fs2 = Scalar (sgn n0) # map (case_prod Power) step"
    have unfold: "factor_slow g st n0 =
      (if n2 = 1 then Some (Ok (ListR fs2), st)
       else
         (case scan_known (odd_primes_list st) n2 fs2 of
            None \<Rightarrow> None
          | Some (Raise e) \<Rightarrow> Some (Raise e, st)
          | Some (Ok (True, n3, factors3)) \<Rightarrow> Some (Ok (ListR factors3), st)
          | Some (Ok (False, n3, factors3)) \<Rightarrow>
              (case grow_loop g st (length (odd_primes_list st)) n3 factors3 of
                 None \<Rightarrow> None
               | Some (Raise e, st') \<Rightarrow> Some (Raise e, st')
               | Some (Ok fs, st') \<Rightarrow> Some (Ok (ListR fs), st'))))"
      using nz False ex unit stepfs by (simp add: factor_slow_def Let_def fs2_def)
    show ?thesis
    proof (cases "n2 = 1")
      case True
      with unfold have "factor_slow g st n0 = Some (Ok (ListR fs2), st)" by simp
      moreover have "?n = pairs_value step" using v2 True stepval by simp
      ultimately show ?thesis using inv stepp two
        by (intro exI [of _ st] exI [of _ step]) (auto simp: fs2_def step_def)
    next
      case n2ne: False
      with n2 have n2gt: "1 < n2" by simp
      let ?ps = "odd_primes_list st"
      have ps1: "\<forall>p \<in> set ?ps. 1 < p" using inv by (auto simp: sieve_inv_def)
      have pss: "sorted_wrt (<) ?ps" by (rule sieve_inv_sorted [OF inv])
      from scan_known_spec [OF ps1 pss n2gt, of fs2] obtain fin n3 pes3 where
        sk: "scan_known ?ps n2 fs2 = Some (Ok (fin, n3, fs2 @ map (case_prod Power) pes3))"
        and v3: "n2 = pairs_value pes3 * n3" and n3: "1 \<le> n3" and fin: "fin = (n3 = 1)"
        and sub3: "set (map fst pes3) \<subseteq> set ?ps" and srt3: "sorted_wrt (<) (map fst pes3)"
        and e3: "\<forall>x \<in> set pes3. 1 \<le> snd x" and nd3: "\<forall>p \<in> set ?ps. \<not> p dvd n3"
        by blast
      have p3: "\<forall>x \<in> set pes3. positive_prime (fst x) \<and> 3 \<le> fst x \<and>
                  fst x \<le> last_tested st \<and> 1 \<le> snd x"
      proof
        fix x assume x: "x \<in> set pes3"
        then have "fst x \<in> set ?ps" using sub3 by auto
        then show "positive_prime (fst x) \<and> 3 \<le> fst x \<and> fst x \<le> last_tested st \<and> 1 \<le> snd x"
          using e3 x inv by (auto simp: sieve_inv_def)
      qed
      have fs3: "fs2 @ map (case_prod Power) pes3 =
                 Scalar (sgn n0) # map (case_prod Power) (step @ pes3)"
        by (simp add: fs2_def)
      have val3: "?n = pairs_value (step @ pes3) * n3"
        using v2 v3 stepval by simp
      have srt23: "sorted_wrt (<) (map fst (step @ pes3))"
      proof (rule sorted_fst_append [where b = 2])
        show "sorted_wrt (<) (map fst step)" by (simp add: step_def)
        show "\<forall>x \<in> set step. fst x \<le> 2" using stepp by simp
        show "\<forall>y \<in> set pes3. 2 < fst y" using p3 by fastforce
      qed (rule srt3)
      have p23: "\<forall>x \<in> set (step @ pes3). positive_prime (fst x) \<and>
                   fst x \<le> last_tested st \<and> 1 \<le> snd x"
        using p3 stepp two inv by (fastforce simp: sieve_inv_def)
      show ?thesis
      proof (cases fin)
        case True
        with unfold n2ne sk fs3 have
          "factor_slow g st n0 =
             Some (Ok (ListR (Scalar (sgn n0) # map (case_prod Power) (step @ pes3))), st)"
          by simp
        moreover have "?n = pairs_value (step @ pes3)" using val3 True fin by simp
        ultimately show ?thesis using inv srt23 p23
          by (intro exI [of _ st] exI [of _ "step @ pes3"]) simp
      next
        case False
        have pre: "\<forall>p. positive_prime p \<and> p \<le> last_tested st \<longrightarrow> \<not> p dvd n3"
        proof (intro allI impI)
          fix p assume p: "positive_prime p \<and> p \<le> last_tested st"
          show "\<not> p dvd n3"
          proof (cases "p = 2")
            case True
            have "n3 dvd n2" using v3 by simp
            with odd2 True show ?thesis by (meson dvd_trans)
          next
            case False
            with p positive_prime_gt1 [of p] have "3 \<le> p" by simp
            with p inv have "p \<in> set ?ps" by (simp add: sieve_inv_def)
            with nd3 show ?thesis by blast
          qed
        qed
        from grow_loop_spec [OF g inv refl n3 pre, of "fs2 @ map (case_prod Power) pes3"]
        obtain st' pes4 where
          gl: "grow_loop g st (length ?ps) n3 (fs2 @ map (case_prod Power) pes3) =
                 Some (Ok ((fs2 @ map (case_prod Power) pes3) @ map (case_prod Power) pes4), st')"
          and inv': "sieve_inv st'" and t': "last_tested st \<le> last_tested st'"
          and v4: "n3 = pairs_value pes4" and srt4: "sorted_wrt (<) (map fst pes4)"
          and p4: "\<forall>x \<in> set pes4. positive_prime (fst x) \<and> last_tested st < fst x \<and> 1 \<le> snd x"
          by blast
        have fs4: "(fs2 @ map (case_prod Power) pes3) @ map (case_prod Power) pes4 =
                   Scalar (sgn n0) # map (case_prod Power) ((step @ pes3) @ pes4)"
          by (simp add: fs2_def)
        have run: "factor_slow g st n0 =
             Some (Ok (ListR (Scalar (sgn n0) # map (case_prod Power) ((step @ pes3) @ pes4))), st')"
          using unfold n2ne sk False gl fs4 by simp
        have val: "?n = pairs_value ((step @ pes3) @ pes4)"
          using val3 v4 by simp
        have srt: "sorted_wrt (<) (map fst ((step @ pes3) @ pes4))"
        proof (rule sorted_fst_append [where b = "last_tested st"])
          show "\<forall>x \<in> set (step @ pes3). fst x \<le> last_tested st" using p23 by simp
          show "\<forall>y \<in> set pes4. last_tested st < fst y" using p4 by simp
        qed (rule srt23, rule srt4)
        have pp: "\<forall>x \<in> set ((step @ pes3) @ pes4). positive_prime (fst x) \<and> 1 \<le> snd x"
          using p23 p4 by auto
        show ?thesis
          using run inv' t' val srt pp
          by (intro exI [of _ st'] exI [of _ "(step @ pes3) @ pes4"]) simp
      qed
    qed
  qed
qed

lemma stop_grows_golden: "stop_grows golden_stop"
  unfolding stop_grows_def
proof (intro allI impI)
  fix t :: int assume t: "9 \<le> t"
  have "(t + 1) * 562949953421312 \<le> t * 910872158600853" using t by simp
  then have "((t + 1) * 562949953421312) div 562949953421312 \<le>
             (t * 910872158600853) div 562949953421312"
    by (intro zdiv_mono1) simp_all
  then have "t + 1 \<le> (t * 910872158600853) div 562949953421312" by simp
  then show "t < golden_stop t" using t by (simp add: golden_stop_def)
qed

lemma times_repeat_power: "times_repeat k p n = n * p ^ k"
  by (induction k arbitrary: n) simp_all

lemma multiply_loop_pairs:
  "\<forall>x \<in> set pes. 0 \<le> snd x \<Longrightarrow>
   multiply_loop (map (case_prod Power) pes) acc = Ok (acc * pairs_value pes)"
  by (induction pes arbitrary: acc) (auto simp: times_repeat_power)

lemma prime_dvd_pairs_value:
  assumes "positive_prime p" "\<forall>x \<in> set pes. positive_prime (fst x)" "p dvd pairs_value pes"
  shows "p \<in> fst ` set pes"
  using assms(2,3)
proof (induction pes)
  case Nil
  then show ?case using positive_prime_gt1 [OF assms(1)] by simp
next
  case (Cons x pes)
  obtain q e where x: "x = (q, e)" by (cases x)
  from Cons.prems(2) have "p dvd q ^ nat e * pairs_value pes" by (simp add: x)
  with prime_dvd_mult [OF assms(1)] have "p dvd q ^ nat e \<or> p dvd pairs_value pes" by blast
  then show ?case
  proof
    assume "p dvd q ^ nat e"
    then have "p dvd q" by (rule prime_dvd_power [OF assms(1)])
    moreover have "positive_prime q" using Cons.prems(1) by (simp add: x)
    ultimately have "p = q" using prime_dvd_prime [OF assms(1)] by blast
    then show ?thesis by (simp add: x)
  next
    assume "p dvd pairs_value pes"
    with Cons show ?thesis by simp
  qed
qed

lemma exact_power:
  assumes srt: "sorted_wrt (<) (map fst pes)"
    and pr: "\<forall>x \<in> set pes. positive_prime (fst x)"
    and mem: "(p, e) \<in> set pes"
  shows "p ^ nat e dvd pairs_value pes \<and> \<not> p ^ (nat e + 1) dvd pairs_value pes"
proof -
  from mem obtain xs ys where split: "pes = xs @ (p, e) # ys"
    by (meson split_list)
  have val: "pairs_value pes = p ^ nat e * pairs_value (xs @ ys)"
    by (simp add: split)
  have pp: "positive_prime p" using pr mem by auto
  then have p0: "p \<noteq> 0" using positive_prime_gt1 [of p] by simp
  have notin: "p \<notin> fst ` set (xs @ ys)"
    using srt by (auto simp: split sorted_wrt_append)
  have "\<not> p dvd pairs_value (xs @ ys)"
  proof
    assume "p dvd pairs_value (xs @ ys)"
    moreover have "\<forall>x \<in> set (xs @ ys). positive_prime (fst x)" using pr by (auto simp: split)
    ultimately have "p \<in> fst ` set (xs @ ys)" by (rule prime_dvd_pairs_value [OF pp, rotated])
    with notin show False by contradiction
  qed
  then have "\<not> p ^ (nat e + 1) dvd pairs_value pes"
    using p0 by (simp add: val)
  moreover have "p ^ nat e dvd pairs_value pes" by (simp add: val)
  ultimately show ?thesis by blast
qed

text \<open>
  C1: on a table the sieve has built, \<open>factor_slow(n)\<close> returns for every nonzero \<open>n\<close>
  and \<open>multiply\<close> of its result is \<open>n\<close>; \<open>factor_slow(0)\<close> is the integer 0, which
  \<open>multiply\<close> sends to 0.
\<close>

theorem factor_multiply_round_trip:
  assumes "stop_grows g" "sieve_inv st"
  shows "(n \<noteq> 0 \<longrightarrow> (\<exists>fs st'. factor_slow g st n = Some (Ok fs, st') \<and> multiply fs = Ok n)) \<and>
         factor_slow g st 0 = Some (Ok (IntR 0), st) \<and> multiply (IntR 0) = Ok 0"
proof (intro conjI impI)
  assume nz: "n \<noteq> 0"
  from factor_slow_spec [OF assms nz] obtain st' pes where
    r: "factor_slow g st n = Some (Ok (ListR (Scalar (sgn n) # map (case_prod Power) pes)), st')"
    and v: "\<bar>n\<bar> = pairs_value pes" and e: "\<forall>x \<in> set pes. positive_prime (fst x) \<and> 1 \<le> snd x"
    by blast
  have "\<forall>x \<in> set pes. 0 \<le> snd x" using e by fastforce
  then have "multiply (ListR (Scalar (sgn n) # map (case_prod Power) pes)) = Ok (sgn n * pairs_value pes)"
    by (simp add: multiply_loop_pairs)
  also have "sgn n * pairs_value pes = n" using v by (simp add: sgn_mult_abs flip: v)
  finally show "\<exists>fs st'. factor_slow g st n = Some (Ok fs, st') \<and> multiply fs = Ok n"
    using r by blast
qed (simp_all add: factor_slow_def)

theorem factor_multiply_round_trip_witness:
  "stop_grows golden_stop \<and> sieve_inv initial_state \<and> (- 1078 :: int) \<noteq> 0 \<and>
   (\<exists>fs st'. factor_slow golden_stop initial_state (- 1078) = Some (Ok fs, st') \<and>
      multiply fs = Ok (- 1078)) \<and>
   factor_slow golden_stop initial_state (- 1078) =
     Some (Ok (ListR [Scalar (- 1), Power 2 1, Power 7 2, Power 11 1]),
       \<lparr>odd_primes_list = [3, 5, 7, 11, 13], small_primes_set = {2, 3, 5, 7, 11, 13},
          last_tested = 15\<rparr>)"
proof -
  have "factor_slow golden_stop initial_state (- 1078) =
     Some (Ok (ListR [Scalar (- 1), Power 2 1, Power 7 2, Power 11 1]),
       \<lparr>odd_primes_list = [3, 5, 7, 11, 13], small_primes_set = {2, 3, 5, 7, 11, 13},
          last_tested = 15\<rparr>)"
    by code_simp
  then show ?thesis
    using stop_grows_golden sieve_inv_initial
      factor_multiply_round_trip [OF stop_grows_golden sieve_inv_initial, of "- 1078"]
    by simp
qed



text \<open>
  C9: on a table the sieve has built, the growth loop of \<open>factor_slow\<close>, entered with a
  cofactor that no prime up to \<open>last_tested\<close> divides, returns, and what it has appended
  multiplies to that cofactor: nothing of it is left. So \<open>factor_slow(n)\<close> returns a list
  for every nonzero \<open>n\<close>.
\<close>

theorem factor_slow_terminates:
  assumes "stop_grows g" "sieve_inv st"
  shows "(n \<noteq> 0 \<longrightarrow> (\<exists>fs st'. factor_slow g st n = Some (Ok (ListR fs), st'))) \<and>
         (1 \<le> c \<and> (\<forall>p. positive_prime p \<and> p \<le> last_tested st \<longrightarrow> \<not> p dvd c) \<longrightarrow>
            (\<exists>pes st'. grow_loop g st (length (odd_primes_list st)) c fs0 =
                 Some (Ok (fs0 @ map (case_prod Power) pes), st') \<and>
               c = pairs_value pes))"
proof (intro conjI impI)
  assume "n \<noteq> 0"
  from factor_slow_spec [OF assms this]
  show "\<exists>fs st'. factor_slow g st n = Some (Ok (ListR fs), st')" by blast
next
  assume c: "1 \<le> c \<and> (\<forall>p. positive_prime p \<and> p \<le> last_tested st \<longrightarrow> \<not> p dvd c)"
  then have c1: "1 \<le> c"
    and nd: "\<forall>p. positive_prime p \<and> p \<le> last_tested st \<longrightarrow> \<not> p dvd c"
    by blast+
  from grow_loop_spec [OF assms refl c1 nd, of fs0]
  show "\<exists>pes st'. grow_loop g st (length (odd_primes_list st)) c fs0 =
                 Some (Ok (fs0 @ map (case_prod Power) pes), st') \<and> c = pairs_value pes"
    by blast
qed

theorem factor_slow_terminates_witness:
  "stop_grows golden_stop \<and> sieve_inv initial_state \<and> (23 :: int) \<noteq> 0 \<and>
   (\<exists>fs st'. factor_slow golden_stop initial_state 23 = Some (Ok (ListR fs), st')) \<and>
   factor_slow golden_stop initial_state 23 =
     Some (Ok (ListR [Scalar 1, Power 23 1]),
       \<lparr>odd_primes_list = [3, 5, 7, 11, 13, 17, 19, 23],
          small_primes_set = {2, 3, 5, 7, 11, 13, 17, 19, 23}, last_tested = 25\<rparr>)"
proof -
  have "factor_slow golden_stop initial_state 23 =
     Some (Ok (ListR [Scalar 1, Power 23 1]),
       \<lparr>odd_primes_list = [3, 5, 7, 11, 13, 17, 19, 23],
          small_primes_set = {2, 3, 5, 7, 11, 13, 17, 19, 23}, last_tested = 25\<rparr>)"
    by code_simp
  then show ?thesis
    using stop_grows_golden sieve_inv_initial
      factor_slow_terminates [OF stop_grows_golden sieve_inv_initial, of 23]
    by simp
qed

section \<open>The divisor count\<close>

lemma divisors_pos: "0 < (m :: int) \<Longrightarrow> {k \<in> {1..m}. k dvd m} = {k. 1 \<le> k \<and> k dvd m}"
  using zdvd_imp_le [of _ m] by auto

lemma power_decompose:
  fixes p k :: int
  assumes "1 < p" "1 \<le> k"
  shows "\<exists>i d. k = p ^ i * d \<and> \<not> p dvd d \<and> 1 \<le> d"
  using extract_power_loop_spec [OF assms, of 0] by blast

lemma prime_power_cancel:
  assumes p: "positive_prime p" and a: "\<not> p dvd a" and b: "\<not> p dvd b"
    and eq: "p ^ i * a = p ^ j * b"
  shows "i = j \<and> a = b"
proof -
  have p0: "p \<noteq> 0" using positive_prime_gt1 [OF p] by simp
  have ij: "\<not> i < j"
  proof
    assume "i < j"
    define r where "r = j - Suc i"
    have j: "j = i + Suc r" using \<open>i < j\<close> by (simp add: r_def)
    from eq have "p ^ i * a = p ^ i * (p * p ^ r * b)" by (simp add: j power_add mult.assoc)
    then have "a = p * p ^ r * b" using p0 by simp
    then have "a = p * (p ^ r * b)" by (simp add: mult.assoc)
    then have "p dvd a" by simp
    with a show False by contradiction
  qed
  have ji: "\<not> j < i"
  proof
    assume "j < i"
    define r where "r = i - Suc j"
    have i: "i = j + Suc r" using \<open>j < i\<close> by (simp add: r_def)
    from eq have "p ^ j * (p * p ^ r * a) = p ^ j * b" by (simp add: i power_add mult.assoc)
    then have "p * p ^ r * a = b" using p0 by simp
    then have "b = p * (p ^ r * a)" by (simp add: mult.assoc)
    then have "p dvd b" by simp
    with b show False by contradiction
  qed
  from ij ji have "i = j" by simp
  with eq p0 show ?thesis by simp
qed

lemma card_divisors_prime_power:
  assumes p: "positive_prime p" and m: "\<not> p dvd m" "0 < m"
  shows "card {k. 1 \<le> k \<and> k dvd p ^ e * m} = (e + 1) * card {k. 1 \<le> k \<and> k dvd m}"
proof -
  let ?D = "{k. 1 \<le> k \<and> k dvd m}"
  let ?E = "{k. 1 \<le> k \<and> k dvd p ^ e * m}"
  let ?f = "\<lambda>(i, d). p ^ i * d"
  have p1: "1 < p" by (rule positive_prime_gt1 [OF p])
  then have p0: "p \<noteq> 0" by simp
  have notdiv: "\<not> p dvd d" if "d dvd m" for d
    using that m(1) by (meson dvd_trans)
  have inj: "inj_on ?f ({0..e} \<times> ?D)"
  proof (rule inj_onI, clarify)
    fix i d j d'
    assume "1 \<le> d" "d dvd m" "1 \<le> d'" "d' dvd m" "p ^ i * d = p ^ j * d'"
    with prime_power_cancel [OF p notdiv notdiv, of d d' i j]
    show "i = j \<and> d = d'" by blast
  qed
  have img: "?f ` ({0..e} \<times> ?D) = ?E"
  proof (intro set_eqI iffI)
    fix k assume "k \<in> ?f ` ({0..e} \<times> ?D)"
    then obtain i d where k: "k = p ^ i * d" and i: "i \<le> e" and d: "1 \<le> d" "d dvd m"
      by auto
    have "0 < p ^ i" using p1 by simp
    then have "0 < k" using d(1) unfolding k by (simp add: zero_less_mult_iff)
    then have "1 \<le> k" by simp
    moreover have "k dvd p ^ e * m"
      unfolding k using i d(2) by (intro mult_dvd_mono le_imp_power_dvd)
    ultimately show "k \<in> ?E" by simp
  next
    fix k assume "k \<in> ?E"
    then have k1: "1 \<le> k" and kd: "k dvd p ^ e * m" by auto
    from power_decompose [OF p1 k1] obtain i d where
      k: "k = p ^ i * d" and pd: "\<not> p dvd d" and d1: "1 \<le> d" by blast
    have "coprime p d" by (rule prime_coprime [OF p pd])
    then have "coprime d (p ^ e)" by (simp add: coprime_commute)
    moreover have "d dvd k" by (simp add: k)
    then have "d dvd m * p ^ e" using kd by (simp add: mult.commute dvd_trans)
    ultimately have dm: "d dvd m" by (simp add: coprime_dvd_mult_left_iff)
    have "i \<le> e"
    proof (rule ccontr)
      assume "\<not> i \<le> e"
      then have "Suc e \<le> i" by simp
      then have "p ^ Suc e dvd p ^ i" by (rule le_imp_power_dvd)
      also have "p ^ i dvd k" by (simp add: k)
      also note kd
      finally have "p ^ e * p dvd p ^ e * m" by (simp add: mult.commute)
      then have "p dvd m" using p0 by simp
      with m(1) show False by contradiction
    qed
    with k d1 dm show "k \<in> ?f ` ({0..e} \<times> ?D)" by force
  qed
  have "card ?E = card (?f ` ({0..e} \<times> ?D))" by (simp only: img)
  also have "\<dots> = card ({0..e} \<times> ?D)" by (rule card_image [OF inj])
  also have "\<dots> = (e + 1) * card ?D" by (simp add: card_cartesian_product)
  finally show ?thesis .
qed

lemma pairs_value_pos: "\<forall>x \<in> set pes. 0 < fst x \<Longrightarrow> 0 < pairs_value pes"
  by (induction pes) (auto simp: zero_less_mult_iff)

lemma card_divisors_pairs:
  assumes "sorted_wrt (<) (map fst pes)" "\<forall>x \<in> set pes. positive_prime (fst x)"
  shows "card {k. 1 \<le> k \<and> k dvd pairs_value pes} = prod_list (map (\<lambda>(p, e). nat e + 1) pes)"
  using assms
proof (induction pes)
  case Nil
  have "{k :: int. 1 \<le> k \<and> k dvd 1} = {1}" by auto
  then show ?case by simp
next
  case (Cons x pes)
  obtain p e where x: "x = (p, e)" by (cases x)
  from Cons.prems have pp: "positive_prime p" and rest: "\<forall>y \<in> set pes. positive_prime (fst y)"
    and srt: "sorted_wrt (<) (map fst pes)" and notin: "p \<notin> fst ` set pes"
    by (auto simp: x)
  have nd: "\<not> p dvd pairs_value pes"
    using prime_dvd_pairs_value [OF pp rest] notin by blast
  have pos: "0 < pairs_value pes"
    using rest positive_prime_gt1 by (intro pairs_value_pos) fastforce
  from card_divisors_prime_power [OF pp nd pos, of "nat e"] Cons.IH [OF srt rest]
  show ?case by (simp add: x)
qed

lemma d_loop_pairs:
  "\<forall>x \<in> set pes. 0 \<le> snd x \<Longrightarrow>
   d_loop (map (case_prod Power) pes) acc = acc * int (prod_list (map (\<lambda>(p, e). nat e + 1) pes))"
  by (induction pes arbitrary: acc) (auto simp: algebra_simps)

lemma d_spec:
  assumes g: "stop_grows g" and inv: "sieve_inv st" and n: "1 < \<bar>n\<bar>"
  shows "\<exists>st' pes. d g st n = Some (Ok (IntV (int (prod_list (map (\<lambda>(p, e). nat e + 1) pes)))), st') \<and>
           \<bar>n\<bar> = pairs_value pes \<and> sorted_wrt (<) (map fst pes) \<and>
           (\<forall>x \<in> set pes. positive_prime (fst x) \<and> 1 \<le> snd x)"
proof -
  define a where "a = \<bar>n\<bar>"
  have a1: "1 < a" and nz: "a \<noteq> 0" and aa: "\<bar>a\<bar> = a" using n by (simp_all add: a_def)
  from factor_slow_spec [OF g inv nz] obtain st' pes where
    r: "factor_slow g st a = Some (Ok (ListR (Scalar (sgn a) # map (case_prod Power) pes)), st')"
    and v: "\<bar>a\<bar> = pairs_value pes" and srt: "sorted_wrt (<) (map fst pes)"
    and e: "\<forall>x \<in> set pes. positive_prime (fst x) \<and> 1 \<le> snd x"
    by blast
  have e0: "\<forall>x \<in> set pes. 0 \<le> snd x" using e by fastforce
  have n0: "n \<noteq> 0" "\<bar>n\<bar> \<noteq> 1" using n by auto
  have "d g st n = Some (Ok (IntV (d_loop (Scalar (sgn a) # map (case_prod Power) pes) 1)), st')"
    using n0 r by (simp add: d_def Let_def flip: a_def)
  then have "d g st n = Some (Ok (IntV (int (prod_list (map (\<lambda>(p, e). nat e + 1) pes)))), st')"
    using d_loop_pairs [OF e0, of 1] by simp
  with v aa srt e show ?thesis unfolding a_def by force
qed

lemma exponent_less_power: "1 < (p :: int) \<Longrightarrow> int e < p ^ e"
proof (induction e)
  case 0
  then show ?case by simp
next
  case (Suc e)
  then have "int e + 1 \<le> p ^ e" by simp
  then have "2 * (int e + 1) \<le> p * p ^ e" using Suc.prems by (intro mult_mono) auto
  then show ?case by simp
qed

lemma multiplicity_exact:
  assumes p: "1 < p" and n: "n \<noteq> 0" and dv: "p ^ e dvd n" and nd: "\<not> p ^ (e + 1) dvd n"
  shows "multiplicity p n = e"
proof -
  have "{i \<in> {1..nat \<bar>n\<bar>}. p ^ i dvd n} = {1..e}"
  proof (intro set_eqI iffI)
    fix i assume "i \<in> {i \<in> {1..nat \<bar>n\<bar>}. p ^ i dvd n}"
    then have i: "1 \<le> i" "p ^ i dvd n" by auto
    have "i \<le> e"
    proof (rule ccontr)
      assume "\<not> i \<le> e"
      then have "e + 1 \<le> i" by simp
      then have "p ^ (e + 1) dvd p ^ i" by (rule le_imp_power_dvd)
      with i(2) nd show False by (meson dvd_trans)
    qed
    with i(1) show "i \<in> {1..e}" by simp
  next
    fix i assume "i \<in> {1..e}"
    then have i: "1 \<le> i" "i \<le> e" by auto
    have "p ^ i dvd p ^ e" using i(2) by (rule le_imp_power_dvd)
    then have d: "p ^ i dvd n" using dv by (rule dvd_trans)
    then have "\<bar>p ^ i\<bar> \<le> \<bar>n\<bar>" using n by (intro dvd_imp_le_int)
    moreover have "0 < p ^ i" using p by simp
    ultimately have "p ^ i \<le> \<bar>n\<bar>" by simp
    with exponent_less_power [OF p, of i] have "i \<le> nat \<bar>n\<bar>" by simp
    with i(1) d show "i \<in> {i \<in> {1..nat \<bar>n\<bar>}. p ^ i dvd n}" by simp
  qed
  then show ?thesis by (simp add: multiplicity_def)
qed

lemma prime_divisors_pairs:
  assumes v: "\<bar>n\<bar> = pairs_value pes"
    and pe: "\<forall>x \<in> set pes. positive_prime (fst x) \<and> 1 \<le> snd x"
  shows "prime_divisors n = fst ` set pes"
proof (intro set_eqI iffI)
  fix p assume "p \<in> prime_divisors n"
  then have "positive_prime p" "p dvd pairs_value pes"
    by (auto simp: prime_divisors_def simp flip: v)
  then show "p \<in> fst ` set pes"
    using pe by (intro prime_dvd_pairs_value) auto
next
  fix p assume "p \<in> fst ` set pes"
  then obtain e where m: "(p, e) \<in> set pes" by auto
  then obtain xs ys where split: "pes = xs @ (p, e) # ys" by (meson split_list)
  from pe m have pp: "positive_prime p" and e1: "1 \<le> e" by auto
  have "p dvd p ^ nat e" using e1 by (intro dvd_power) simp
  then have "p dvd pairs_value pes" by (simp add: split)
  then have dv: "p dvd n" by (simp flip: v)
  have pos: "0 < pairs_value pes"
    using pe positive_prime_gt1 by (intro pairs_value_pos) fastforce
  then have "n \<noteq> 0" using v by auto
  with dv have "\<bar>p\<bar> \<le> \<bar>n\<bar>" by (intro dvd_imp_le_int)
  with pp dv positive_prime_gt1 [OF pp] show "p \<in> prime_divisors n"
    by (simp add: prime_divisors_def)
qed

lemma sorted_fst_distinct: "sorted_wrt (<) (xs :: int list) \<Longrightarrow> distinct xs"
  by (induction xs) auto

lemma prod_multiplicity_pairs:
  assumes v: "\<bar>n\<bar> = pairs_value pes" and srt: "sorted_wrt (<) (map fst pes)"
    and pe: "\<forall>x \<in> set pes. positive_prime (fst x) \<and> 1 \<le> snd x"
  shows "(\<Prod>p \<in> prime_divisors n. multiplicity p n + 1) =
         prod_list (map (\<lambda>(p, e). nat e + 1) pes)"
proof -
  have pr: "\<forall>x \<in> set pes. positive_prime (fst x)" using pe by blast
  have pos: "0 < pairs_value pes"
    using pe positive_prime_gt1 by (intro pairs_value_pos) fastforce
  then have nz: "n \<noteq> 0" using v by auto
  have mult: "multiplicity p n = nat e" if "(p, e) \<in> set pes" for p e
  proof -
    from exact_power [OF srt pr that]
    have "p ^ nat e dvd n" "\<not> p ^ (nat e + 1) dvd n" by (simp_all flip: v)
    moreover have "1 < p" using pr that positive_prime_gt1 by fastforce
    ultimately show ?thesis using nz by (intro multiplicity_exact)
  qed
  have "(\<Prod>p \<in> prime_divisors n. multiplicity p n + 1) =
        (\<Prod>p \<in> set (map fst pes). multiplicity p n + 1)"
    by (simp add: prime_divisors_pairs [OF v pe])
  also have "\<dots> = prod_list (map (\<lambda>p. multiplicity p n + 1) (map fst pes))"
    by (rule prod.distinct_set_conv_list [OF sorted_fst_distinct [OF srt]])
  also have "\<dots> = prod_list (map (\<lambda>(p, e). nat e + 1) pes)"
    using mult by (auto intro!: arg_cong [of _ _ prod_list])
  finally show ?thesis .
qed

text \<open>
  C5: on a table the sieve has built, \<open>d(n)\<close> for a positive \<open>n\<close> is the number of
  divisors of \<open>n\<close> among 1, ..., \<open>n\<close>; \<open>d(0)\<close> is the infinity; \<open>d(1)\<close> and \<open>d(-1)\<close> are
  1; and for \<open>abs(n) > 1\<close>, \<open>d(n)\<close> is the product, over the primes dividing \<open>n\<close>, of
  the prime's exponent in \<open>n\<close> plus one.
\<close>

theorem d_counts_divisors:
  assumes g: "stop_grows g" and inv: "sieve_inv st"
  shows "(0 < n \<longrightarrow> (\<exists>st'. d g st n = Some (Ok (IntV (int (divisor_count n))), st'))) \<and>
         d g st 0 = Some (Ok PosInf, st) \<and>
         d g st 1 = Some (Ok (IntV 1), st) \<and> d g st (- 1) = Some (Ok (IntV 1), st) \<and>
         (1 < \<bar>n\<bar> \<longrightarrow>
            (\<exists>st'. d g st n =
               Some (Ok (IntV (int (\<Prod>p \<in> prime_divisors n. multiplicity p n + 1))), st')))"
proof (intro conjI impI)
  assume pos: "0 < n"
  show "\<exists>st'. d g st n = Some (Ok (IntV (int (divisor_count n))), st')"
  proof (cases "n = 1")
    case True
    have "{k :: int. k = 1 \<and> k dvd 1} = {1}" by auto
    then have "divisor_count 1 = 1" by (simp add: divisor_count_def)
    with True show ?thesis by (simp add: d_def)
  next
    case False
    with pos have "1 < \<bar>n\<bar>" by simp
    from d_spec [OF g inv this] obtain st' pes where
      r: "d g st n = Some (Ok (IntV (int (prod_list (map (\<lambda>(p, e). nat e + 1) pes)))), st')"
      and v: "\<bar>n\<bar> = pairs_value pes" and srt: "sorted_wrt (<) (map fst pes)"
      and pe: "\<forall>x \<in> set pes. positive_prime (fst x) \<and> 1 \<le> snd x"
      by blast
    have pr: "\<forall>x \<in> set pes. positive_prime (fst x)" using pe by blast
    have "divisor_count n = card {k. 1 \<le> k \<and> k dvd n}"
      unfolding divisor_count_def by (simp only: divisors_pos [OF pos])
    also have "\<dots> = card {k. 1 \<le> k \<and> k dvd pairs_value pes}"
      using v pos by simp
    also have "\<dots> = prod_list (map (\<lambda>(p, e). nat e + 1) pes)"
      by (rule card_divisors_pairs [OF srt pr])
    finally show ?thesis using r by simp
  qed
next
  assume "1 < \<bar>n\<bar>"
  from d_spec [OF g inv this] obtain st' pes where
    r: "d g st n = Some (Ok (IntV (int (prod_list (map (\<lambda>(p, e). nat e + 1) pes)))), st')"
    and v: "\<bar>n\<bar> = pairs_value pes" and srt: "sorted_wrt (<) (map fst pes)"
    and pe: "\<forall>x \<in> set pes. positive_prime (fst x) \<and> 1 \<le> snd x"
    by blast
  show "\<exists>st'. d g st n =
          Some (Ok (IntV (int (\<Prod>p \<in> prime_divisors n. multiplicity p n + 1))), st')"
    using r prod_multiplicity_pairs [OF v srt pe] by simp
qed (simp_all add: d_def)

theorem d_counts_divisors_witness:
  "stop_grows golden_stop \<and> sieve_inv initial_state \<and> (0 :: int) < 12 \<and> 1 < \<bar>12 :: int\<bar> \<and>
   d golden_stop initial_state 12 = Some (Ok (IntV 6), initial_state) \<and>
   divisor_count 12 = 6 \<and> (\<Prod>p \<in> prime_divisors 12. multiplicity p 12 + 1) = 6"
proof -
  have e: "d golden_stop initial_state 12 = Some (Ok (IntV 6), initial_state)"
    by code_simp
  have m: "(\<Prod>p \<in> prime_divisors 12. multiplicity p 12 + 1) = 6"
    by code_simp
  show ?thesis
    using stop_grows_golden sieve_inv_initial e m
      d_counts_divisors [OF stop_grows_golden sieve_inv_initial, of 12]
    by simp
qed

end
